theory Spec2Isabelle
  imports Main "HOL-Library.Multiset"
begin

section \<open>Data model (types.ts)\<close>

text \<open>
  The interfaces of \<^verbatim>\<open>types.ts\<close> become records. Several interfaces share field names
  (\<^verbatim>\<open>id\<close>, \<^verbatim>\<open>likes\<close>, \<^verbatim>\<open>createdAt\<close>, ...) and \<^verbatim>\<open>id\<close> is a constant of HOL, so every
  field carries the initial of its interface: \<open>c_\<close> for Comment, \<open>e_\<close> for Episode,
  \<open>s_\<close> for Story, \<open>d_\<close> for the comment data handed to \<^verbatim>\<open>addComment\<close>.
  Identifiers are strings, \<^verbatim>\<open>likes\<close> and \<^verbatim>\<open>dislikes\<close> are arrays (lists: order and
  duplicates exist in the code), and \<^verbatim>\<open>createdAt\<close> is the integer millisecond count
  that \<^verbatim>\<open>Date.now()\<close> returns.
\<close>

datatype UserRole = READER | AUTHOR | ADMIN

text \<open>
  \<^verbatim>\<open>parentId?: string | null\<close>: the field may be absent (\<^verbatim>\<open>undefined\<close>), \<^verbatim>\<open>null\<close> or a
  string, and \<^verbatim>\<open>===\<close> tells the three apart.
\<close>

datatype parent_ref = Undefined | Null | Ref string

record Comment =
  c_id :: string
  c_episodeId :: string
  c_userId :: string
  c_username :: string
  c_userRole :: UserRole
  c_content :: string
  c_createdAt :: int
  c_parentId :: parent_ref
  c_likes :: "string list"
  c_dislikes :: "string list"

datatype Status = published | draft

datatype Classification = ongoing | completed

record Episode =
  e_id :: string
  e_storyId :: string
  e_title :: string
  e_content :: string
  e_createdAt :: int
  e_updatedAt :: "int option"
  e_likes :: "string list"
  e_comments :: "Comment list"
  e_status :: Status
  e_views :: int

record Story =
  s_id :: string
  s_authorId :: string
  s_authorName :: string
  s_title :: string
  s_description :: string
  s_coverImage :: string
  s_createdAt :: int
  s_episodes :: "Episode list"
  s_status :: Status
  s_classification :: Classification
  s_views :: int

text \<open>
  The \<^verbatim>\<open>stories\<close> collection of the document store: \<^verbatim>\<open>getDoc\<close> on a document
  reference either finds a story (\<^verbatim>\<open>storyDoc.exists()\<close>) or not.
\<close>

type_synonym stories = "string \<rightharpoonup> Story"

datatype VoteType = Like | Dislike

section \<open>Vote toggle (store service, toggleCommentVote)\<close>

text \<open>
  The body of the branch \<^verbatim>\<open>if (comment.id === commentId)\<close>: both arrays are copied,
  one membership test selects the branch, \<^verbatim>\<open>push\<close> appends at the end, \<^verbatim>\<open>filter\<close>
  removes every occurrence, and the result is \<^verbatim>\<open>{ ...comment, likes, dislikes }\<close>.
\<close>

definition toggleVote :: "Comment \<Rightarrow> string \<Rightarrow> VoteType \<Rightarrow> Comment" where
  "toggleVote comment userId voteType =
     (let likes = c_likes comment; dislikes = c_dislikes comment in
      if voteType = Like then
        (if userId \<in> set likes
         then comment\<lparr>c_likes := filter (\<lambda>i. i \<noteq> userId) likes, c_dislikes := dislikes\<rparr>
         else comment\<lparr>c_likes := likes @ [userId],
                      c_dislikes := filter (\<lambda>i. i \<noteq> userId) dislikes\<rparr>)
      else
        (if userId \<in> set dislikes
         then comment\<lparr>c_likes := likes, c_dislikes := filter (\<lambda>i. i \<noteq> userId) dislikes\<rparr>
         else comment\<lparr>c_likes := filter (\<lambda>i. i \<noteq> userId) likes,
                      c_dislikes := dislikes @ [userId]\<rparr>))"

text \<open>The two nested \<^verbatim>\<open>map\<close> calls that compute the new \<^verbatim>\<open>episodes\<close> array.\<close>

definition toggleVoteEpisodes ::
  "Episode list \<Rightarrow> string \<Rightarrow> string \<Rightarrow> string \<Rightarrow> VoteType \<Rightarrow> Episode list" where
  "toggleVoteEpisodes episodes episodeId commentId userId voteType =
     map (\<lambda>ep.
            if e_id ep = episodeId
            then ep\<lparr>e_comments :=
                     map (\<lambda>comment.
                            if c_id comment = commentId
                            then toggleVote comment userId voteType
                            else comment)
                         (e_comments ep)\<rparr>
            else ep)
         episodes"

text \<open>
  The whole operation on the store: nothing happens when the story document does not
  exist; otherwise \<^verbatim>\<open>updateDoc(storyDocRef, { episodes })\<close> replaces the \<^verbatim>\<open>episodes\<close>
  field of that one document. The function has no \<^verbatim>\<open>throw\<close> and no rejected branch of
  its own, so the model returns the new store directly.
\<close>

definition toggleCommentVote ::
  "stories \<Rightarrow> string \<Rightarrow> string \<Rightarrow> string \<Rightarrow> string \<Rightarrow> VoteType \<Rightarrow> stories" where
  "toggleCommentVote db storyId episodeId commentId userId voteType =
     (case db storyId of
        None \<Rightarrow> db
      | Some story \<Rightarrow>
          db(storyId \<mapsto>
               story\<lparr>s_episodes :=
                       toggleVoteEpisodes (s_episodes story) episodeId commentId userId voteType\<rparr>))"

text \<open>The data-model invariants of the two vote arrays.\<close>

definition vote_inv :: "Comment \<Rightarrow> bool" where
  "vote_inv c =
     (distinct (c_likes c) \<and> distinct (c_dislikes c) \<and> set (c_likes c) \<inter> set (c_dislikes c) = {})"

text \<open>A sequence of vote requests applied to one comment, oldest first.\<close>

fun toggleVotes :: "Comment \<Rightarrow> (string \<times> VoteType) list \<Rightarrow> Comment" where
  "toggleVotes c [] = c"
| "toggleVotes c ((userId, voteType) # rest) = toggleVotes (toggleVote c userId voteType) rest"

text \<open>The array a vote of the given type does not toggle.\<close>

fun opposite :: "Comment \<Rightarrow> VoteType \<Rightarrow> string list" where
  "opposite c Like = c_dislikes c"
| "opposite c Dislike = c_likes c"

text \<open>A comment with the given vote arrays and fixed other fields, for concrete runs.\<close>

definition voted :: "string list \<Rightarrow> string list \<Rightarrow> Comment" where
  "voted ls ds =
     \<lparr>c_id = ''x'', c_episodeId = ''e1'', c_userId = ''u0'', c_username = ''ann'',
      c_userRole = READER, c_content = ''hello'', c_createdAt = 100, c_parentId = Null,
      c_likes = ls, c_dislikes = ds\<rparr>"

section \<open>Comment creation (store service, addComment)\<close>

text \<open>
  \<^verbatim>\<open>Omit<Comment, 'id' | 'createdAt' | 'likes' | 'dislikes'>\<close>, the argument of
  \<^verbatim>\<open>addComment\<close>.
\<close>

record CommentData =
  d_episodeId :: string
  d_userId :: string
  d_username :: string
  d_userRole :: UserRole
  d_content :: string
  d_parentId :: parent_ref

text \<open>
  The object literal \<^verbatim>\<open>newComment\<close>. The identifier comes from the document store
  (\<^verbatim>\<open>doc(collection(db, 'stories')).id\<close>) and the timestamp from the clock
  (\<^verbatim>\<open>Date.now()\<close>); both are outside the sources and are passed in.
\<close>

definition newComment :: "CommentData \<Rightarrow> string \<Rightarrow> int \<Rightarrow> Comment" where
  "newComment commentData generatedId now =
     \<lparr>c_id = generatedId,
      c_episodeId = d_episodeId commentData,
      c_userId = d_userId commentData,
      c_username = d_username commentData,
      c_userRole = d_userRole commentData,
      c_content = d_content commentData,
      c_createdAt = now,
      c_parentId = d_parentId commentData,
      c_likes = [],
      c_dislikes = []\<rparr>"

definition addCommentEpisodes :: "Episode list \<Rightarrow> string \<Rightarrow> Comment \<Rightarrow> Episode list" where
  "addCommentEpisodes episodes episodeId new =
     map (\<lambda>ep. if e_id ep = episodeId then ep\<lparr>e_comments := e_comments ep @ [new]\<rparr> else ep)
         episodes"

definition addComment ::
  "stories \<Rightarrow> string \<Rightarrow> string \<Rightarrow> CommentData \<Rightarrow> string \<Rightarrow> int \<Rightarrow> stories" where
  "addComment db storyId episodeId commentData generatedId now =
     (let new = newComment commentData generatedId now in
      case db storyId of
        None \<Rightarrow> db
      | Some story \<Rightarrow>
          db(storyId \<mapsto> story\<lparr>s_episodes := addCommentEpisodes (s_episodes story) episodeId new\<rparr>))"

definition story_comments :: "Story \<Rightarrow> Comment list" where
  "story_comments story = concat (map e_comments (s_episodes story))"

text \<open>
  Modelled from the spec: the identifier generator of the document store, whose code is
  not part of the sources. Section 4.3 says that creation "assigns a fresh unique id";
  the predicate below is that contract for one generated identifier: no comment stored
  in any story carries it.
\<close>

definition fresh_id :: "stories \<Rightarrow> string \<Rightarrow> bool" where
  "fresh_id db generatedId =
     (\<forall>story \<in> ran db. \<forall>c \<in> set (story_comments story). c_id c \<noteq> generatedId)"

section \<open>Tree builder (story view, CommentTree)\<close>

text \<open>
  \<^verbatim>\<open>Array.prototype.sort\<close> with a comparator. The language standard asks for a stable
  sort; the model is the stable insertion sort: an element goes before the first
  element that the comparator does not place before it.
\<close>

fun insert_cmp :: "('a \<Rightarrow> 'a \<Rightarrow> int) \<Rightarrow> 'a \<Rightarrow> 'a list \<Rightarrow> 'a list" where
  "insert_cmp cmp x [] = [x]"
| "insert_cmp cmp x (y # ys) = (if cmp x y \<le> 0 then x # y # ys else y # insert_cmp cmp x ys)"

definition sort_cmp :: "('a \<Rightarrow> 'a \<Rightarrow> int) \<Rightarrow> 'a list \<Rightarrow> 'a list" where
  "sort_cmp cmp xs = foldr (insert_cmp cmp) xs []"

text \<open>
  \<^verbatim>\<open>comments.filter(c => c.parentId === parentId).sort((a, b) => a.createdAt - b.createdAt)\<close>
\<close>

definition childComments :: "Comment list \<Rightarrow> parent_ref \<Rightarrow> Comment list" where
  "childComments comments parentId =
     sort_cmp (\<lambda>a b. c_createdAt a - c_createdAt b)
              (filter (\<lambda>c. c_parentId c = parentId) comments)"

text \<open>The default of the destructured property: \<^verbatim>\<open>parentId = null\<close>.\<close>

definition default_null :: "parent_ref \<Rightarrow> parent_ref" where
  "default_null parentId = (case parentId of Undefined \<Rightarrow> Null | _ \<Rightarrow> parentId)"

text \<open>
  What the component renders, as a forest: one node for each card, holding the comment
  and the forest of the nested \<^verbatim>\<open>CommentTree\<close> element. The component returns \<^verbatim>\<open>null\<close>
  when there are no child comments, which is the empty forest.
\<close>

datatype node = Node (payload: Comment) (children: "node list")

text \<open>
  The recursion of the component is not bounded by anything in the code, so the model
  counts the nesting depth down: \<open>None\<close> means that the given depth did not suffice.
\<close>

fun CommentTree :: "nat \<Rightarrow> Comment list \<Rightarrow> parent_ref \<Rightarrow> node list option" where
  "CommentTree 0 comments parentId = None"
| "CommentTree (Suc fuel) comments parentId =
     those (map (\<lambda>comment.
                   map_option (Node comment) (CommentTree fuel comments (Ref (c_id comment))))
                (childComments comments (default_null parentId)))"

text \<open>The root element: \<^verbatim>\<open><CommentTree comments={activeEpisode.comments} />\<close>.\<close>

definition buildForest :: "nat \<Rightarrow> Comment list \<Rightarrow> node list option" where
  "buildForest fuel comments = CommentTree fuel comments Undefined"

text \<open>All nodes of a tree and of a forest, parents before children.\<close>

fun subnodes :: "node \<Rightarrow> node list" where
  "subnodes (Node c kids) = Node c kids # concat (map subnodes kids)"

definition forest_nodes :: "node list \<Rightarrow> node list" where
  "forest_nodes f = concat (map subnodes f)"

definition flatten :: "node list \<Rightarrow> Comment list" where
  "flatten f = map payload (forest_nodes f)"

text \<open>
  The comments on the way from a node up to its root, each with the comments over it
  (nearest ancestor first).
\<close>

fun node_paths :: "Comment list \<Rightarrow> node \<Rightarrow> Comment list list" where
  "node_paths anc (Node c kids) = (c # anc) # concat (map (node_paths (c # anc)) kids)"

definition forest_paths :: "node list \<Rightarrow> Comment list list" where
  "forest_paths f = concat (map (node_paths []) f)"

text \<open>
  Chains of parent references inside a collection: in \<open>chain cs (c # anc)\<close> the comment
  \<open>c\<close> refers to the head of \<open>anc\<close>, and the last comment of a chain is top-level.
\<close>

definition top_ref :: "Comment list \<Rightarrow> parent_ref" where
  "top_ref anc = (case anc of [] \<Rightarrow> Null | p # _ \<Rightarrow> Ref (c_id p))"

primrec chain :: "Comment list \<Rightarrow> Comment list \<Rightarrow> bool" where
  "chain cs [] = True"
| "chain cs (c # anc) = (c \<in> set cs \<and> c_parentId c = top_ref anc \<and> chain cs anc)"

text \<open>Every non-null \<^verbatim>\<open>parentId\<close> is the \<^verbatim>\<open>id\<close> of a comment of the collection.\<close>

definition parents_resolve :: "Comment list \<Rightarrow> bool" where
  "parents_resolve cs =
     (\<forall>c \<in> set cs. c_parentId c \<noteq> Null \<longrightarrow> (\<exists>p \<in> set cs. c_parentId c = Ref (c_id p)))"

text \<open>
  Following the parent references from \<open>c\<close> for at most \<open>n\<close> steps ends at a top-level
  comment.
\<close>

fun rooted :: "Comment list \<Rightarrow> nat \<Rightarrow> Comment \<Rightarrow> bool" where
  "rooted cs 0 c = (c_parentId c = Null)"
| "rooted cs (Suc n) c =
     (c_parentId c = Null \<or> (\<exists>p \<in> set cs. c_parentId c = Ref (c_id p) \<and> rooted cs n p))"

text \<open>
  The parent references of every comment of the collection lead to a top-level comment:
  every reference resolves, and none of the comments lies on a cycle.
\<close>

definition all_rooted :: "Comment list \<Rightarrow> bool" where
  "all_rooted cs = (\<forall>c \<in> set cs. rooted cs (length cs) c)"

text \<open>
  The \<^verbatim>\<open>parentId\<close> of the comment is neither \<^verbatim>\<open>null\<close> nor the \<^verbatim>\<open>id\<close> of a comment of
  the collection.
\<close>

definition orphan :: "Comment list \<Rightarrow> Comment \<Rightarrow> bool" where
  "orphan cs c = (c_parentId c \<noteq> Null \<and> (\<forall>p \<in> set cs. c_parentId c \<noteq> Ref (c_id p)))"

text \<open>A comment with the given id, parent and timestamp and fixed other fields.\<close>

definition mk :: "string \<Rightarrow> parent_ref \<Rightarrow> int \<Rightarrow> Comment" where
  "mk i p t =
     \<lparr>c_id = i, c_episodeId = ''e1'', c_userId = ''u0'', c_username = ''ann'',
      c_userRole = READER, c_content = ''hello'', c_createdAt = t, c_parentId = p,
      c_likes = [], c_dislikes = []\<rparr>"

text \<open>The example collection of the specification.\<close>

definition example_comments :: "Comment list" where
  "example_comments =
     [mk ''a'' Null 100, mk ''b'' (Ref ''a'') 200, mk ''c'' Null 50, mk ''d'' (Ref ''zzz'') 300]"

text \<open>The example without its orphan: every reference resolves and there is no cycle.\<close>

definition tidy_comments :: "Comment list" where
  "tidy_comments = [mk ''a'' Null 100, mk ''b'' (Ref ''a'') 200, mk ''c'' Null 50]"

text \<open>Two comments that name each other as parent.\<close>

definition cycle_comments :: "Comment list" where
  "cycle_comments = [mk ''a'' (Ref ''b'') 1, mk ''b'' (Ref ''a'') 2]"

text \<open>Siblings with equal timestamps, out of order in the collection.\<close>

definition tied_comments :: "Comment list" where
  "tied_comments =
     [mk ''p'' Null 7, mk ''q'' (Ref ''p'') 9, mk ''r'' (Ref ''p'') 5, mk ''s'' (Ref ''p'') 9,
      mk ''t'' (Ref ''p'') 5]"

text \<open>
  A list of comments of the collection in which each refers to the next as its parent;
  a comment lies on a cycle of parent references when such a list leads from it back to
  itself.
\<close>

fun linked :: "Comment list \<Rightarrow> Comment list \<Rightarrow> bool" where
  "linked cs [] = True"
| "linked cs [x] = (x \<in> set cs)"
| "linked cs (x # y # r) = (x \<in> set cs \<and> c_parentId x = Ref (c_id y) \<and> linked cs (y # r))"

definition on_cycle :: "Comment list \<Rightarrow> Comment \<Rightarrow> bool" where
  "on_cycle cs c = (\<exists>xs. linked cs (c # xs @ [c]))"

text \<open>No comment of the collection lies on a cycle of parent references.\<close>

definition acyclic_parents :: "Comment list \<Rightarrow> bool" where
  "acyclic_parents cs = (\<forall>c \<in> set cs. \<not> on_cycle cs c)"

text \<open>A reply thread and, beside it, two comments that name each other as parent.\<close>

definition looped_comments :: "Comment list" where
  "looped_comments =
     [mk ''a'' Null 1, mk ''b'' (Ref ''a'') 2, mk ''x'' (Ref ''y'') 3, mk ''y'' (Ref ''x'') 4]"

text \<open>
  The fields of a comment other than the two vote arrays agree: \<^verbatim>\<open>id\<close>, \<^verbatim>\<open>episodeId\<close>,
  \<^verbatim>\<open>userId\<close>, \<^verbatim>\<open>username\<close>, \<^verbatim>\<open>userRole\<close>, \<^verbatim>\<open>content\<close>, \<^verbatim>\<open>createdAt\<close>, \<^verbatim>\<open>parentId\<close>.
\<close>

definition same_except_votes :: "Comment \<Rightarrow> Comment \<Rightarrow> bool" where
  "same_except_votes c c' =
     (c_id c' = c_id c \<and> c_episodeId c' = c_episodeId c \<and> c_userId c' = c_userId c \<and>
      c_username c' = c_username c \<and> c_userRole c' = c_userRole c \<and>
      c_content c' = c_content c \<and> c_createdAt c' = c_createdAt c \<and>
      c_parentId c' = c_parentId c)"

text \<open>A store with one story of two episodes, and the data of a reply, for concrete runs.\<close>

definition example_episode :: "string \<Rightarrow> Comment list \<Rightarrow> Episode" where
  "example_episode i cs =
     \<lparr>e_id = i, e_storyId = ''s1'', e_title = ''One'', e_content = ''text'', e_createdAt = 10,
      e_updatedAt = None, e_likes = [], e_comments = cs, e_status = published, e_views = 0\<rparr>"

definition example_story :: "Episode list \<Rightarrow> Story" where
  "example_story eps =
     \<lparr>s_id = ''s1'', s_authorId = ''w1'', s_authorName = ''bo'', s_title = ''Tale'',
      s_description = ''d'', s_coverImage = ''img'', s_createdAt = 5, s_episodes = eps,
      s_status = published, s_classification = ongoing, s_views = 0\<rparr>"

definition example_db :: stories where
  "example_db =
     [''s1'' \<mapsto> example_story
        [example_episode ''e1'' [voted [''u1''] [], mk ''y'' (Ref ''x'') 200],
         example_episode ''e2'' [mk ''x'' Null 300]]]"

definition reply_data :: CommentData where
  "reply_data =
     \<lparr>d_episodeId = ''e1'', d_userId = ''u7'', d_username = ''cy'', d_userRole = AUTHOR,
      d_content = ''hi'', d_parentId = Ref ''nobody''\<rparr>"

text \<open>Two top-level comments with one id, and a reply to that id.\<close>

definition namesake_comments :: "Comment list" where
  "namesake_comments = [mk ''a'' Null 1, mk ''a'' Null 2, mk ''b'' (Ref ''a'') 3]"

text \<open>A top-level comment and a reply that carries the id of its own parent.\<close>

definition self_reply_comments :: "Comment list" where
  "self_reply_comments = [mk ''a'' Null 1, mk ''a'' (Ref ''a'') 2]"

section \<open>Vote toggle: theorems\<close>

lemma toggleVote_frame:
  "toggleVote c u v\<lparr>c_likes := c_likes c, c_dislikes := c_dislikes c\<rparr> = c"
  by (simp add: toggleVote_def Let_def)

lemma toggleVote_inv: "vote_inv c \<Longrightarrow> vote_inv (toggleVote c u v)"
  by (auto simp: vote_inv_def toggleVote_def Let_def)

text \<open>
  C3. Starting from a comment whose \<^verbatim>\<open>likes\<close> and \<^verbatim>\<open>dislikes\<close> are each duplicate-free
  and share no user id, every finite sequence of toggles (any users, any vote types)
  ends in a comment with the same three properties.
\<close>

theorem toggleVotes_preserve_inv:
  "vote_inv c \<Longrightarrow> vote_inv (toggleVotes c ops)"
proof (induction ops arbitrary: c)
  case Nil
  then show ?case by simp
next
  case (Cons op ops)
  obtain u v where op: "op = (u, v)" by (cases op)
  from Cons.prems have "vote_inv (toggleVote c u v)" by (rule toggleVote_inv)
  then have "vote_inv (toggleVotes (toggleVote c u v) ops)" by (rule Cons.IH)
  then show ?case by (simp add: op)
qed

theorem toggleVotes_preserve_inv_witness:
  "vote_inv (voted [''u1''] []) \<and>
   vote_inv (toggleVotes (voted [''u1''] []) [(''u2'', Dislike), (''u1'', Dislike)]) \<and>
   toggleVotes (voted [''u1''] []) [(''u2'', Dislike), (''u1'', Dislike)] =
     voted [] [''u2'', ''u1'']"
proof -
  have h: "vote_inv (voted [''u1''] [])" by (simp add: vote_inv_def voted_def)
  have r: "toggleVotes (voted [''u1''] []) [(''u2'', Dislike), (''u1'', Dislike)] =
             voted [] [''u2'', ''u1'']"
    by (simp add: toggleVote_def voted_def)
  from toggleVotes_preserve_inv [OF h, of "[(''u2'', Dislike), (''u1'', Dislike)]"] h r
  show ?thesis by simp
qed

section \<open>Tree builder: the sort, the shape of a result, chains of parents\<close>

lemma insert_cmp_insort:
  "insert_cmp (\<lambda>a b. f a - f b) x ys = insort_key (f :: 'a \<Rightarrow> int) x ys"
  by (induction ys) auto

lemma sort_cmp_sort_key: "sort_cmp (\<lambda>a b. f a - f b) xs = sort_key (f :: 'a \<Rightarrow> int) xs"
  by (induction xs) (auto simp: sort_cmp_def insert_cmp_insort)

lemma childComments_sort_key:
  "childComments cs p = sort_key c_createdAt (filter (\<lambda>c. c_parentId c = p) cs)"
  by (simp add: childComments_def sort_cmp_sort_key)

lemma set_childComments: "set (childComments cs p) = {c \<in> set cs. c_parentId c = p}"
  by (simp add: childComments_sort_key)

lemma mset_childComments:
  "mset (childComments cs p) = filter_mset (\<lambda>c. c_parentId c = p) (mset cs)"
  by (simp add: childComments_sort_key)

lemma distinct_childComments: "distinct cs \<Longrightarrow> distinct (childComments cs p)"
  by (simp add: childComments_sort_key)

lemma sorted_childComments: "sorted (map c_createdAt (childComments cs p))"
  by (simp add: childComments_sort_key)

lemma stable_childComments:
  "filter (\<lambda>c. c_createdAt c = k) (childComments cs p) =
   filter (\<lambda>c. c_parentId c = p \<and> c_createdAt c = k) cs"
  by (simp add: childComments_sort_key sort_key_stable conj_commute)

lemma those_map_Some: "those (map Some ys) = Some ys"
  by (induction ys) auto

lemma those_eq_Some: "those xs = Some ys \<longleftrightarrow> xs = map Some ys"
proof (induction xs arbitrary: ys)
  case Nil
  then show ?case by auto
next
  case (Cons x xs)
  then show ?case by (cases x) (auto simp: those_map_Some)
qed

lemma default_null_simps [simp]:
  "default_null Undefined = Null" "default_null Null = Null" "default_null (Ref i) = Ref i"
  by (simp_all add: default_null_def)

lemma default_null_top_ref [simp]: "default_null (top_ref pre) = top_ref pre"
  by (simp add: top_ref_def split: list.splits)

text \<open>The shape of a successful call.\<close>

lemma CommentTree_Suc_Some:
  "CommentTree (Suc n) cs p = Some f \<longleftrightarrow>
     (\<forall>c \<in> set (childComments cs (default_null p)). CommentTree n cs (Ref (c_id c)) \<noteq> None) \<and>
     f = map (\<lambda>c. Node c (the (CommentTree n cs (Ref (c_id c))))) (childComments cs (default_null p))"
  (is "?l \<longleftrightarrow> ?r")
proof
  assume ?l
  then have eq: "map (\<lambda>c. map_option (Node c) (CommentTree n cs (Ref (c_id c))))
                  (childComments cs (default_null p)) = map Some f"
    by (simp add: those_eq_Some)
  then show ?r
    apply (intro conjI)
     apply (auto simp: list_eq_iff_nth_eq in_set_conv_nth)[1]
     apply force
    apply (auto simp: list_eq_iff_nth_eq in_set_conv_nth)
    by (metis option.map_sel option.sel option.simps(3) option.map_disc_iff)
next
  assume ?r
  then show ?l
    by (auto simp: those_eq_Some)
qed


declare CommentTree.simps(2) [simp del]

lemma CommentTree_Undefined: "CommentTree n cs Undefined = CommentTree n cs Null"
  by (cases n) (simp_all add: CommentTree.simps(2))

lemma CommentTree_mono:
  "CommentTree n cs p = Some f \<Longrightarrow> n \<le> m \<Longrightarrow> CommentTree m cs p = Some f"
proof (induction n arbitrary: m p f)
  case 0
  then show ?case by simp
next
  case (Suc n)
  from Suc.prems(2) obtain m' where m: "m = Suc m'" and le: "n \<le> m'"
    by (cases m) auto
  from Suc.prems(1) have
    ne: "\<forall>c \<in> set (childComments cs (default_null p)). CommentTree n cs (Ref (c_id c)) \<noteq> None"
    and f: "f = map (\<lambda>c. Node c (the (CommentTree n cs (Ref (c_id c)))))
                 (childComments cs (default_null p))"
    by (simp_all add: CommentTree_Suc_Some)
  have same: "CommentTree m' cs (Ref (c_id c)) = CommentTree n cs (Ref (c_id c))"
    if "c \<in> set (childComments cs (default_null p))" for c
  proof -
    from ne that obtain g where "CommentTree n cs (Ref (c_id c)) = Some g" by auto
    with Suc.IH [OF this le] show ?thesis by simp
  qed
  show ?case
    unfolding m CommentTree_Suc_Some using ne f same by auto
qed

text \<open>Chains.\<close>

lemma chain_subset: "chain cs xs \<Longrightarrow> set xs \<subseteq> set cs"
  by (induction xs) auto

lemma chain_append: "chain cs (xs @ ys) \<Longrightarrow> chain cs ys"
  by (induction xs) auto

lemma top_ref_simps [simp]: "top_ref [] = Null" "top_ref (p # r) = Ref (c_id p)"
  by (simp_all add: top_ref_def)

lemma top_ref_eq_Null [simp]: "top_ref xs = Null \<longleftrightarrow> xs = []"
  by (simp add: top_ref_def split: list.splits)

lemma chain_unique:
  "inj_on c_id (set cs) \<Longrightarrow> chain cs (c # r1) \<Longrightarrow> chain cs (c # r2) \<Longrightarrow> r1 = r2"
proof (induction r1 arbitrary: c r2)
  case Nil
  then show ?case by (metis chain.simps(2) top_ref_eq_Null)
next
  case (Cons p r1)
  from Cons.prems have "top_ref r2 = Ref (c_id p)" by (simp add: top_ref_def)
  then obtain q r2' where r2: "r2 = q # r2'" and q: "c_id q = c_id p"
    by (auto simp: top_ref_def split: list.splits)
  from Cons.prems r2 have "p \<in> set cs" "q \<in> set cs" by auto
  with q Cons.prems(1) have "q = p" by (auto dest: inj_onD)
  with Cons.IH [of p r2'] Cons.prems r2 show ?case by auto
qed

lemma chain_distinct: "inj_on c_id (set cs) \<Longrightarrow> chain cs xs \<Longrightarrow> distinct xs"
proof (induction xs)
  case Nil
  then show ?case by simp
next
  case (Cons c r)
  have "c \<notin> set r"
  proof
    assume "c \<in> set r"
    then obtain as bs where r: "r = as @ c # bs" by (auto dest: split_list)
    from Cons.prems(2) have "chain cs (c # bs)"
      using chain_append [of cs "c # as" "c # bs"] by (simp add: r)
    with Cons.prems have "bs = r" by (blast dest: chain_unique)
    with r show False by simp
  qed
  with Cons show ?case by simp
qed

lemma chain_length:
  assumes "inj_on c_id (set cs)" "chain cs xs"
  shows "length xs \<le> length cs"
proof -
  have "length xs = card (set xs)"
    using chain_distinct [OF assms] by (simp add: distinct_card)
  also have "\<dots> \<le> card (set cs)"
    using chain_subset [OF assms(2)] by (simp add: card_mono)
  also have "\<dots> \<le> length cs" by (rule card_length)
  finally show ?thesis .
qed

lemma CommentTree_terminates:
  "inj_on c_id (set cs) \<Longrightarrow> chain cs pre \<Longrightarrow> length cs - length pre < n \<Longrightarrow>
   \<exists>f. CommentTree n cs (top_ref pre) = Some f"
proof (induction n arbitrary: pre)
  case 0
  then show ?case by simp
next
  case (Suc n)
  have "CommentTree n cs (Ref (c_id c)) \<noteq> None"
    if c: "c \<in> set (childComments cs (top_ref pre))" for c
  proof -
    from c Suc.prems(2) have ch: "chain cs (c # pre)" by (simp add: set_childComments)
    from chain_length [OF Suc.prems(1) ch] Suc.prems(3)
    have "length cs - length (c # pre) < n" by simp
    from Suc.IH [OF Suc.prems(1) ch this] show ?thesis by (simp add: top_ref_def)
  qed
  then show ?case by (simp add: CommentTree_Suc_Some)
qed


text \<open>Nodes of a forest.\<close>

lemma subnodes_eq: "subnodes (Node c g) = Node c g # forest_nodes g"
  by (simp add: forest_nodes_def)

lemma self_in_subnodes: "nd \<in> set (subnodes nd)"
  by (cases nd) simp

lemma forest_nodes_simps [simp]:
  "forest_nodes [] = []"
  "forest_nodes (nd # f) = subnodes nd @ forest_nodes f"
  by (simp_all add: forest_nodes_def)

lemma set_forest_nodes: "set (forest_nodes f) = (\<Union>nd \<in> set f. set (subnodes nd))"
  by (simp add: forest_nodes_def)

lemma roots_in_forest_nodes: "set f \<subseteq> set (forest_nodes f)"
  using self_in_subnodes by (auto simp: set_forest_nodes)

lemma children_in_subnodes:
  "nd' \<in> set (subnodes nd) \<Longrightarrow> set (children nd') \<subseteq> set (subnodes nd)"
proof (induction nd)
  case (Node c kids)
  from Node.prems consider "nd' = Node c kids" | kid where "kid \<in> set kids" "nd' \<in> set (subnodes kid)"
    by auto
  then show ?case
  proof cases
    case 1
    then show ?thesis using self_in_subnodes by auto
  next
    case 2
    with Node.IH [of kid] show ?thesis by auto
  qed
qed

lemma children_in_forest_nodes:
  "nd \<in> set (forest_nodes f) \<Longrightarrow> set (children nd) \<subseteq> set (forest_nodes f)"
  using children_in_subnodes by (fastforce simp: set_forest_nodes)

lemma flatten_simps [simp]:
  "flatten [] = []"
  "flatten (Node c g # f) = c # flatten g @ flatten f"
  by (simp_all add: flatten_def forest_nodes_def)

lemma flatten_map_Node:
  "flatten (map (\<lambda>c. Node c (sub c)) kids) = concat (map (\<lambda>c. c # flatten (sub c)) kids)"
  by (induction kids) simp_all

lemma length_forest_nodes: "length (forest_nodes f) = length (flatten f)"
  by (simp add: flatten_def)

text \<open>What a successful call returns.\<close>

lemma CommentTree_roots:
  "CommentTree n cs p = Some f \<Longrightarrow> map payload f = childComments cs (default_null p)"
  by (cases n) (simp_all add: CommentTree_Suc_Some comp_def)

lemma CommentTree_children:
  "CommentTree n cs p = Some f \<Longrightarrow> nd \<in> set (forest_nodes f) \<Longrightarrow>
   \<exists>m. CommentTree m cs (Ref (c_id (payload nd))) = Some (children nd)"
proof (induction n arbitrary: p f)
  case 0
  then show ?case by simp
next
  case (Suc n)
  let ?kids = "childComments cs (default_null p)"
  let ?sub = "\<lambda>c. the (CommentTree n cs (Ref (c_id c)))"
  from Suc.prems(1) have
    ne: "\<forall>c \<in> set ?kids. CommentTree n cs (Ref (c_id c)) \<noteq> None"
    and f: "f = map (\<lambda>c. Node c (?sub c)) ?kids"
    by (simp_all add: CommentTree_Suc_Some)
  from Suc.prems(2) f obtain c where c: "c \<in> set ?kids"
    and nd: "nd = Node c (?sub c) \<or> nd \<in> set (forest_nodes (?sub c))"
    by (auto simp: set_forest_nodes subnodes_eq)
  from ne c have sub: "CommentTree n cs (Ref (c_id c)) = Some (?sub c)" by auto
  from nd show ?case
  proof
    assume "nd = Node c (?sub c)"
    with sub show ?thesis by auto
  next
    assume "nd \<in> set (forest_nodes (?sub c))"
    with Suc.IH [OF sub] show ?thesis .
  qed
qed

lemma CommentTree_children_exact:
  assumes "CommentTree n cs p = Some f" "nd \<in> set (forest_nodes f)"
  shows "map payload (children nd) = childComments cs (Ref (c_id (payload nd)))"
proof -
  from CommentTree_children [OF assms] obtain m
    where "CommentTree m cs (Ref (c_id (payload nd))) = Some (children nd)" ..
  from CommentTree_roots [OF this] show ?thesis by simp
qed

lemma flatten_chain:
  "chain cs pre \<Longrightarrow> CommentTree n cs (top_ref pre) = Some f \<Longrightarrow> x \<in> set (flatten f) \<Longrightarrow>
   \<exists>ch. chain cs (x # ch @ pre)"
proof (induction n arbitrary: pre f x)
  case 0
  then show ?case by simp
next
  case (Suc n)
  let ?kids = "childComments cs (top_ref pre)"
  let ?sub = "\<lambda>c. the (CommentTree n cs (Ref (c_id c)))"
  from Suc.prems(2) have
    ne: "\<forall>c \<in> set ?kids. CommentTree n cs (Ref (c_id c)) \<noteq> None"
    and f: "f = map (\<lambda>c. Node c (?sub c)) ?kids"
    by (simp_all add: CommentTree_Suc_Some)
  from Suc.prems(3) obtain c where c: "c \<in> set ?kids"
    and x: "x = c \<or> x \<in> set (flatten (?sub c))"
    unfolding f flatten_map_Node by auto
  from c Suc.prems(1) have ch: "chain cs (c # pre)" by (simp add: set_childComments)
  from ne c have sub: "CommentTree n cs (top_ref (c # pre)) = Some (?sub c)"
    by (auto simp: top_ref_def)
  from x show ?case
  proof
    assume "x = c"
    with ch have "chain cs (x # [] @ pre)" by simp
    then show ?thesis by blast
  next
    assume "x \<in> set (flatten (?sub c))"
    from Suc.IH [OF ch sub this] obtain ch' where "chain cs (x # ch' @ c # pre)" ..
    then have "chain cs (x # (ch' @ [c]) @ pre)" by simp
    then show ?thesis by blast
  qed
qed

lemma distinct_concat_map:
  "distinct xs \<Longrightarrow> (\<And>x. x \<in> set xs \<Longrightarrow> distinct (g x)) \<Longrightarrow>
   (\<And>x y. x \<in> set xs \<Longrightarrow> y \<in> set xs \<Longrightarrow> x \<noteq> y \<Longrightarrow> set (g x) \<inter> set (g y) = {}) \<Longrightarrow>
   distinct (concat (map g xs))"
proof (induction xs)
  case Nil
  then show ?case by simp
next
  case (Cons a xs)
  have "distinct (concat (map g xs))"
    using Cons.prems by (intro Cons.IH) auto
  moreover have "distinct (g a)" using Cons.prems(2) by simp
  moreover have "set (g a) \<inter> set (g y) = {}" if "y \<in> set xs" for y
    using Cons.prems(1) Cons.prems(3) [of a y] that by auto
  ultimately show ?case by auto
qed

lemma flatten_distinct:
  "distinct (map c_id cs) \<Longrightarrow> chain cs pre \<Longrightarrow> CommentTree n cs (top_ref pre) = Some f \<Longrightarrow>
   distinct (flatten f)"
proof (induction n arbitrary: pre f)
  case 0
  then show ?case by simp
next
  case (Suc n)
  let ?kids = "childComments cs (top_ref pre)"
  let ?sub = "\<lambda>c. the (CommentTree n cs (Ref (c_id c)))"
  from Suc.prems(1) have inj: "inj_on c_id (set cs)" and dcs: "distinct cs"
    by (simp_all add: distinct_map)
  from Suc.prems(3) have
    ne: "\<forall>c \<in> set ?kids. CommentTree n cs (Ref (c_id c)) \<noteq> None"
    and f: "f = map (\<lambda>c. Node c (?sub c)) ?kids"
    by (simp_all add: CommentTree_Suc_Some)
  have kid: "chain cs (c # pre) \<and> CommentTree n cs (top_ref (c # pre)) = Some (?sub c)"
    if "c \<in> set ?kids" for c
    using that ne Suc.prems(2) by (auto simp: set_childComments top_ref_def)
  have below: "\<exists>ch zs. chain cs (x # ch) \<and> x # ch = zs @ c # pre"
    if c: "c \<in> set ?kids" and x: "x \<in> set (c # flatten (?sub c))" for c x
  proof (cases "x = c")
    case True
    with kid [OF c] have "chain cs (x # pre) \<and> x # pre = [] @ c # pre" by simp
    then show ?thesis by blast
  next
    case False
    with x have "x \<in> set (flatten (?sub c))" by simp
    with flatten_chain kid [OF c] obtain ch where "chain cs (x # ch @ c # pre)" by blast
    then have "chain cs (x # ch @ c # pre) \<and> x # ch @ c # pre = (x # ch) @ c # pre" by simp
    then show ?thesis by blast
  qed
  have "distinct (concat (map (\<lambda>c. c # flatten (?sub c)) ?kids))"
  proof (rule distinct_concat_map)
    show "distinct ?kids" using dcs by (rule distinct_childComments)
  next
    fix c assume c: "c \<in> set ?kids"
    have "c \<notin> set (flatten (?sub c))"
    proof
      assume "c \<in> set (flatten (?sub c))"
      with flatten_chain kid [OF c] obtain ch where "chain cs (c # ch @ c # pre)" by blast
      with kid [OF c] inj have "ch @ c # pre = pre" by (blast dest: chain_unique)
      then have "length (ch @ c # pre) = length pre" by simp
      then show False by simp
    qed
    moreover have "distinct (flatten (?sub c))"
      using Suc.IH [OF Suc.prems(1)] kid [OF c] by blast
    ultimately show "distinct (c # flatten (?sub c))" by simp
  next
    fix c d assume c: "c \<in> set ?kids" and d: "d \<in> set ?kids" and cd: "c \<noteq> d"
    show "set (c # flatten (?sub c)) \<inter> set (d # flatten (?sub d)) = {}"
    proof (rule ccontr)
      assume "\<not> ?thesis"
      then obtain x where xc: "x \<in> set (c # flatten (?sub c))"
        and xd: "x \<in> set (d # flatten (?sub d))" by blast
      from below [OF c xc] obtain ch1 zs1
        where 1: "chain cs (x # ch1)" "x # ch1 = zs1 @ c # pre" by blast
      from below [OF d xd] obtain ch2 zs2
        where 2: "chain cs (x # ch2)" "x # ch2 = zs2 @ d # pre" by blast
      from 1(1) 2(1) inj have "ch1 = ch2" by (blast dest: chain_unique)
      with 1(2) 2(2) have eq: "zs1 @ c # pre = zs2 @ d # pre" by simp
      then have "length (zs1 @ c # pre) = length (zs2 @ d # pre)" by simp
      then have "length zs1 = length zs2" by simp
      with eq have "c = d" by simp
      with cd show False by contradiction
    qed
  qed
  then show ?case by (simp add: f flatten_map_Node)
qed

lemma roots_in_flatten: "CommentTree n cs p = Some f \<Longrightarrow>
  set (childComments cs (default_null p)) \<subseteq> set (flatten f)"
proof -
  assume a: "CommentTree n cs p = Some f"
  have "set (map payload f) \<subseteq> set (flatten f)"
    using roots_in_forest_nodes [of f] by (auto simp: flatten_def)
  with CommentTree_roots [OF a] show ?thesis by simp
qed

lemma chain_in_flatten:
  "CommentTree n cs Null = Some f \<Longrightarrow> chain cs (c # pre) \<Longrightarrow> c \<in> set (flatten f)"
proof (induction pre arbitrary: c)
  case Nil
  then have "c \<in> set (childComments cs Null)" by (simp add: set_childComments)
  with roots_in_flatten [OF Nil.prems(1)] show ?case by auto
next
  case (Cons p pre)
  from Cons.prems(2) have "chain cs (p # pre)" by simp
  from Cons.IH [OF Cons.prems(1) this] obtain nd
    where nd: "nd \<in> set (forest_nodes f)" and p: "payload nd = p"
    by (auto simp: flatten_def)
  from Cons.prems(2) have "c \<in> set (childComments cs (Ref (c_id p)))"
    by (simp add: set_childComments top_ref_def)
  with CommentTree_children_exact [OF Cons.prems(1) nd] p
  have "c \<in> set (map payload (children nd))" by simp
  then obtain kid where "kid \<in> set (children nd)" "payload kid = c" by auto
  with children_in_forest_nodes [OF nd] show ?case by (auto simp: flatten_def)
qed

lemma rooted_chain: "c \<in> set cs \<Longrightarrow> rooted cs n c \<Longrightarrow> \<exists>pre. chain cs (c # pre)"
proof (induction n arbitrary: c)
  case 0
  then have "chain cs (c # [])" by simp
  then show ?case by blast
next
  case (Suc n)
  from Suc.prems(2) consider "c_parentId c = Null"
    | p where "p \<in> set cs" "c_parentId c = Ref (c_id p)" "rooted cs n p"
    by auto
  then show ?case
  proof cases
    case 1
    with Suc.prems(1) have "chain cs (c # [])" by simp
    then show ?thesis by blast
  next
    case 2
    from Suc.IH [OF 2(1) 2(3)] obtain pre where "chain cs (p # pre)" ..
    with 2(2) Suc.prems(1) have "chain cs (c # p # pre)" by (simp add: top_ref_def)
    then show ?thesis by blast
  qed
qed

lemma flatten_subset: "CommentTree n cs p = Some f \<Longrightarrow> set (flatten f) \<subseteq> set cs"
proof (induction n arbitrary: p f)
  case 0
  then show ?case by simp
next
  case (Suc n)
  let ?kids = "childComments cs (default_null p)"
  let ?sub = "\<lambda>c. the (CommentTree n cs (Ref (c_id c)))"
  from Suc.prems have
    ne: "\<forall>c \<in> set ?kids. CommentTree n cs (Ref (c_id c)) \<noteq> None"
    and f: "f = map (\<lambda>c. Node c (?sub c)) ?kids"
    by (simp_all add: CommentTree_Suc_Some)
  have "set (flatten (?sub c)) \<subseteq> set cs" if "c \<in> set ?kids" for c
    using ne that Suc.IH [of "Ref (c_id c)" "?sub c"] by auto
  then show ?case
    unfolding f flatten_map_Node by (auto simp: set_childComments)
qed

section \<open>Tree builder: theorems\<close>

lemma buildForest_Some_Null: "buildForest n cs = CommentTree n cs (top_ref [])"
  by (simp add: buildForest_def CommentTree_Undefined)

text \<open>
  C4. In every forest the builder returns, each group of siblings (the roots, and the
  children of every node) is listed in non-decreasing order of \<^verbatim>\<open>createdAt\<close>, and the
  siblings with one and the same \<^verbatim>\<open>createdAt\<close> are listed in the order in which they
  stand in the input collection.
\<close>

theorem siblings_sorted_stable:
  assumes "buildForest n cs = Some f"
  shows "sorted (map c_createdAt (map payload f)) \<and>
         (\<forall>k. filter (\<lambda>c. c_createdAt c = k) (map payload f) =
              filter (\<lambda>c. c_parentId c = Null \<and> c_createdAt c = k) cs) \<and>
         (\<forall>nd \<in> set (forest_nodes f).
            sorted (map c_createdAt (map payload (children nd))) \<and>
            (\<forall>k. filter (\<lambda>c. c_createdAt c = k) (map payload (children nd)) =
                 filter (\<lambda>c. c_parentId c = Ref (c_id (payload nd)) \<and> c_createdAt c = k) cs))"
proof -
  from assms have f: "CommentTree n cs Undefined = Some f" by (simp add: buildForest_def)
  from CommentTree_roots [OF f] have roots: "map payload f = childComments cs Null" by simp
  have kids: "map payload (children nd) = childComments cs (Ref (c_id (payload nd)))"
    if "nd \<in> set (forest_nodes f)" for nd
    using f that by (rule CommentTree_children_exact)
  show ?thesis
    unfolding roots using kids
    by (simp add: sorted_childComments stable_childComments)
qed

lemma tied_forest:
  "buildForest 3 tied_comments =
     Some [Node (mk ''p'' Null 7)
             [Node (mk ''r'' (Ref ''p'') 5) [], Node (mk ''t'' (Ref ''p'') 5) [],
              Node (mk ''q'' (Ref ''p'') 9) [], Node (mk ''s'' (Ref ''p'') 9) []]]"
  by code_simp

theorem siblings_sorted_stable_witness:
  "buildForest 3 tied_comments =
     Some [Node (mk ''p'' Null 7)
             [Node (mk ''r'' (Ref ''p'') 5) [], Node (mk ''t'' (Ref ''p'') 5) [],
              Node (mk ''q'' (Ref ''p'') 9) [], Node (mk ''s'' (Ref ''p'') 9) []]] \<and>
   sorted (map c_createdAt
     [mk ''r'' (Ref ''p'') 5, mk ''t'' (Ref ''p'') 5, mk ''q'' (Ref ''p'') 9,
      mk ''s'' (Ref ''p'') 9]) \<and>
   filter (\<lambda>c. c_createdAt c = 9)
     [mk ''r'' (Ref ''p'') 5, mk ''t'' (Ref ''p'') 5, mk ''q'' (Ref ''p'') 9,
      mk ''s'' (Ref ''p'') 9] =
   filter (\<lambda>c. c_parentId c = Ref ''p'' \<and> c_createdAt c = 9) tied_comments"
proof -
  let ?kids = "[Node (mk ''r'' (Ref ''p'') 5) [], Node (mk ''t'' (Ref ''p'') 5) [],
              Node (mk ''q'' (Ref ''p'') 9) [], Node (mk ''s'' (Ref ''p'') 9) []]"
  let ?f = "[Node (mk ''p'' Null 7) ?kids]"
  have h: "buildForest 3 tied_comments = Some ?f" by (rule tied_forest)
  have nd: "Node (mk ''p'' Null 7) ?kids \<in> set (forest_nodes ?f)" by simp
  from siblings_sorted_stable [OF h] nd
  have "sorted (map c_createdAt (map payload (children (Node (mk ''p'' Null 7) ?kids)))) \<and>
        filter (\<lambda>c. c_createdAt c = 9) (map payload (children (Node (mk ''p'' Null 7) ?kids))) =
        filter (\<lambda>c. c_parentId c = Ref (c_id (payload (Node (mk ''p'' Null 7) ?kids))) \<and>
                    c_createdAt c = 9) tied_comments"
    by blast
  moreover have "c_id (mk ''p'' Null 7) = ''p''" by (simp add: mk_def)
  ultimately show ?thesis using h by (simp only: node.sel list.map simp_thms)
qed

lemma linked_head: "linked cs (x # r) \<Longrightarrow> x \<in> set cs"
  by (cases r) simp_all

lemma linked_prefix_of_chain:
  "inj_on c_id (set cs) \<Longrightarrow> chain cs (c # pre) \<Longrightarrow> linked cs (c # ys) \<Longrightarrow> \<exists>zs. pre = ys @ zs"
proof (induction ys arbitrary: c pre)
  case Nil
  then show ?case by simp
next
  case (Cons y ys)
  from Cons.prems(3) have y: "c_parentId c = Ref (c_id y)" "y \<in> set cs" "linked cs (y # ys)"
    by (auto dest: linked_head)
  with Cons.prems(2) obtain p pre' where pre: "pre = p # pre'" and p: "c_id p = c_id y"
    by (cases pre) auto
  from Cons.prems(2) pre have "p \<in> set cs" by simp
  with p y(2) Cons.prems(1) have py: "p = y" by (auto dest: inj_onD)
  from Cons.prems(2) pre py have "chain cs (y # pre')" by simp
  from Cons.IH [OF Cons.prems(1) this y(3)] obtain zs where "pre' = ys @ zs" ..
  with pre py show ?case by simp
qed

lemma chain_not_on_cycle:
  assumes "inj_on c_id (set cs)" "chain cs (c # pre)"
  shows "\<not> on_cycle cs c"
proof
  assume "on_cycle cs c"
  then obtain xs where "linked cs (c # xs @ [c])" by (auto simp: on_cycle_def)
  from linked_prefix_of_chain [OF assms this] obtain zs where "pre = (xs @ [c]) @ zs" ..
  then have "c \<in> set pre" by simp
  with chain_distinct [OF assms] show False by simp
qed

lemma node_paths_chain:
  "chain cs pre \<Longrightarrow> CommentTree n cs (top_ref pre) = Some f \<Longrightarrow>
   path \<in> set (concat (map (node_paths pre) f)) \<Longrightarrow> chain cs path"
proof (induction n arbitrary: pre f path)
  case 0
  then show ?case by simp
next
  case (Suc n)
  let ?kids = "childComments cs (top_ref pre)"
  let ?sub = "\<lambda>c. the (CommentTree n cs (Ref (c_id c)))"
  from Suc.prems(2) have
    ne: "\<forall>c \<in> set ?kids. CommentTree n cs (Ref (c_id c)) \<noteq> None"
    and f: "f = map (\<lambda>c. Node c (?sub c)) ?kids"
    by (simp_all add: CommentTree_Suc_Some)
  from Suc.prems(3) obtain c where c: "c \<in> set ?kids"
    and path: "path = c # pre \<or> path \<in> set (concat (map (node_paths (c # pre)) (?sub c)))"
    unfolding f by auto
  from c Suc.prems(1) have ch: "chain cs (c # pre)" by (simp add: set_childComments)
  from ne c have sub: "CommentTree n cs (top_ref (c # pre)) = Some (?sub c)" by auto
  from path show ?case
  proof
    assume "path = c # pre"
    with ch show ?thesis by simp
  next
    assume "path \<in> set (concat (map (node_paths (c # pre)) (?sub c)))"
    with ch sub show ?thesis by (rule Suc.IH)
  qed
qed

text \<open>
  C10. For every collection whose comments have pairwise distinct ids the recursive
  construction terminates: one forest is returned at every depth bound above the size of
  the collection, also when parent references form a cycle. On every path from a node of
  that forest up to its root no id occurs twice, and no comment of the forest lies on a
  cycle of parent references.
\<close>

theorem buildForest_terminates:
  assumes "distinct (map c_id cs)"
  shows "\<exists>f. (\<forall>n. length cs < n \<longrightarrow> buildForest n cs = Some f) \<and>
             (\<forall>path \<in> set (forest_paths f). distinct (map c_id path)) \<and>
             (\<forall>c \<in> set (flatten f). \<not> on_cycle cs c)"
proof -
  from assms have inj: "inj_on c_id (set cs)" by (simp add: distinct_map)
  have ch0: "chain cs []" by simp
  from CommentTree_terminates [OF inj ch0, of "Suc (length cs)"]
  obtain f where f: "CommentTree (Suc (length cs)) cs (top_ref []) = Some f" by auto
  have all: "buildForest n cs = Some f" if "length cs < n" for n
    using CommentTree_mono [OF f, of n] that by (simp add: buildForest_Some_Null)
  have paths: "distinct (map c_id path)" if "path \<in> set (forest_paths f)" for path
  proof -
    from that have "chain cs path"
      using node_paths_chain [OF ch0 f] by (simp add: forest_paths_def)
    then have "distinct path" "set path \<subseteq> set cs"
      using inj by (auto dest: chain_distinct chain_subset)
    with inj show ?thesis by (auto simp: distinct_map intro: inj_on_subset)
  qed
  have cyc: "\<not> on_cycle cs c" if "c \<in> set (flatten f)" for c
  proof -
    from flatten_chain [OF ch0 f that] obtain ch where "chain cs (c # ch)" by auto
    with inj show ?thesis by (rule chain_not_on_cycle)
  qed
  from all paths cyc show ?thesis by blast
qed

theorem buildForest_terminates_witness:
  "distinct (map c_id looped_comments) \<and>
   on_cycle looped_comments (mk ''x'' (Ref ''y'') 3) \<and>
   (\<exists>f. buildForest 5 looped_comments = Some f \<and>
        (\<forall>path \<in> set (forest_paths f). distinct (map c_id path)) \<and>
        (\<forall>c \<in> set (flatten f). \<not> on_cycle looped_comments c))"
proof -
  have d: "distinct (map c_id looped_comments)"
    by (simp add: looped_comments_def mk_def)
  have "linked looped_comments (mk ''x'' (Ref ''y'') 3 # [mk ''y'' (Ref ''x'') 4] @ [mk ''x'' (Ref ''y'') 3])"
    by (simp add: looped_comments_def mk_def)
  then have c: "on_cycle looped_comments (mk ''x'' (Ref ''y'') 3)"
    unfolding on_cycle_def by blast
  have l: "length looped_comments < 5" by (simp add: looped_comments_def)
  from buildForest_terminates [OF d] obtain f
    where f: "\<forall>n. length looped_comments < n \<longrightarrow> buildForest n looped_comments = Some f"
      and p: "\<forall>path \<in> set (forest_paths f). distinct (map c_id path)"
      and q: "\<forall>c \<in> set (flatten f). \<not> on_cycle looped_comments c"
    by blast
  from f l have r: "buildForest 5 looped_comments = Some f" by blast
  from r p q have "\<exists>f. buildForest 5 looped_comments = Some f \<and>
        (\<forall>path \<in> set (forest_paths f). distinct (map c_id path)) \<and>
        (\<forall>c \<in> set (flatten f). \<not> on_cycle looped_comments c)"
    by (intro exI conjI)
  with d c show ?thesis by (intro conjI)
qed

text \<open>
  Resolving references without a cycle lead to a root: a comment whose references do not
  end within as many steps as the collection has comments starts a list of parents longer
  than the collection, in which some comment occurs twice.
\<close>

lemma linked_subset: "linked cs ys \<Longrightarrow> set ys \<subseteq> set cs"
  by (induction cs ys rule: linked.induct) auto

lemma linked_drop: "linked cs (us @ vs) \<Longrightarrow> linked cs vs"
proof (induction us)
  case Nil
  then show ?case by simp
next
  case (Cons u us)
  then show ?case by (cases "us @ vs") auto
qed

lemma linked_take: "linked cs (us @ vs) \<Longrightarrow> linked cs us"
proof (induction us)
  case Nil
  then show ?case by simp
next
  case (Cons u us)
  show ?case
  proof (cases us)
    case Nil
    with Cons.prems show ?thesis by (auto dest: linked_head)
  next
    case (Cons w ws)
    with Cons.prems Cons.IH show ?thesis by auto
  qed
qed

lemma unrooted_linked:
  "parents_resolve cs \<Longrightarrow> c \<in> set cs \<Longrightarrow> \<not> rooted cs n c \<Longrightarrow>
   \<exists>xs. length xs = Suc n \<and> linked cs (c # xs)"
proof (induction n arbitrary: c)
  case 0
  then obtain p where "p \<in> set cs" "c_parentId c = Ref (c_id p)"
    by (auto simp: parents_resolve_def)
  with 0 have "length [p] = Suc 0 \<and> linked cs (c # [p])" by simp
  then show ?case by blast
next
  case (Suc n)
  from Suc.prems(3) have nn: "c_parentId c \<noteq> Null" by simp
  with Suc.prems obtain p where p: "p \<in> set cs" "c_parentId c = Ref (c_id p)"
    by (auto simp: parents_resolve_def)
  with Suc.prems(3) have "\<not> rooted cs n p" by auto
  from Suc.IH [OF Suc.prems(1) p(1) this] obtain xs
    where xs: "length xs = Suc n" "linked cs (p # xs)" by blast
  with p Suc.prems(2) have "length (p # xs) = Suc (Suc n) \<and> linked cs (c # p # xs)" by simp
  then show ?case by blast
qed

lemma repeated_on_cycle:
  assumes "linked cs ys" "\<not> distinct ys"
  shows "\<exists>x \<in> set cs. on_cycle cs x"
proof -
  from assms(2) obtain as x bs ds where ys: "ys = as @ [x] @ bs @ [x] @ ds"
    using not_distinct_decomp by blast
  with assms(1) have "linked cs (as @ (x # bs @ [x]) @ ds)" by simp
  then have "linked cs ((x # bs @ [x]) @ ds)" by (rule linked_drop)
  then have l: "linked cs (x # bs @ [x])" by (rule linked_take)
  then have "on_cycle cs x" unfolding on_cycle_def by blast
  moreover from l have "x \<in> set cs" by (rule linked_head)
  ultimately show ?thesis by blast
qed

lemma resolve_acyclic_rooted:
  assumes "parents_resolve cs" "acyclic_parents cs"
  shows "all_rooted cs"
  unfolding all_rooted_def
proof
  fix c assume c: "c \<in> set cs"
  show "rooted cs (length cs) c"
  proof (rule ccontr)
    assume "\<not> rooted cs (length cs) c"
    from unrooted_linked [OF assms(1) c this] obtain xs
      where xs: "length xs = Suc (length cs)" "linked cs (c # xs)" by blast
    have "\<not> distinct (c # xs)"
    proof
      assume d: "distinct (c # xs)"
      from linked_subset [OF xs(2)] have "card (set (c # xs)) \<le> card (set cs)"
        by (intro card_mono) auto
      also have "\<dots> \<le> length cs" by (rule card_length)
      finally show False using d xs(1) by (simp add: distinct_card)
    qed
    from repeated_on_cycle [OF xs(2) this] assms(2) show False
      by (auto simp: acyclic_parents_def)
  qed
qed

lemma rooted_acyclic:
  assumes "distinct (map c_id cs)" "all_rooted cs"
  shows "acyclic_parents cs"
  unfolding acyclic_parents_def
proof
  fix c assume c: "c \<in> set cs"
  from assms(1) have inj: "inj_on c_id (set cs)" by (simp add: distinct_map)
  from assms(2) c have "rooted cs (length cs) c" by (simp add: all_rooted_def)
  from rooted_chain [OF c this] obtain pre where "chain cs (c # pre)" ..
  with inj show "\<not> on_cycle cs c" by (rule chain_not_on_cycle)
qed

lemma rooted_forest_count:
  assumes "distinct (map c_id cs)" and "all_rooted cs"
  shows "\<exists>f. (\<forall>n. length cs < n \<longrightarrow> buildForest n cs = Some f) \<and>
             length (forest_nodes f) = length cs"
proof -
  from assms(1) have inj: "inj_on c_id (set cs)" and dcs: "distinct cs"
    by (simp_all add: distinct_map)
  have ch0: "chain cs []" by simp
  from CommentTree_terminates [OF inj ch0, of "Suc (length cs)"]
  obtain f where f: "CommentTree (Suc (length cs)) cs (top_ref []) = Some f" by auto
  have all: "buildForest n cs = Some f" if "length cs < n" for n
    using CommentTree_mono [OF f, of n] that by (simp add: buildForest_Some_Null)
  have "set (flatten f) = set cs"
  proof
    show "set (flatten f) \<subseteq> set cs" using f by (rule flatten_subset)
    show "set cs \<subseteq> set (flatten f)"
    proof
      fix c assume c: "c \<in> set cs"
      with assms(2) have "rooted cs (length cs) c" by (simp add: all_rooted_def)
      from rooted_chain [OF c this] obtain pre where "chain cs (c # pre)" ..
      with f show "c \<in> set (flatten f)" by (auto intro: chain_in_flatten)
    qed
  qed
  moreover have "distinct (flatten f)" using assms(1) ch0 f by (rule flatten_distinct)
  ultimately have "length (flatten f) = length cs"
    using dcs by (metis distinct_card)
  then have count: "length (forest_nodes f) = length cs" by (simp add: length_forest_nodes)
  from all count show ?thesis by blast
qed

text \<open>
  C1. The data model gives every comment a unique id and rules out cycles of parent
  references. For every such collection in which every non-null \<^verbatim>\<open>parentId\<close> is the id
  of a comment of the collection, the tree builder returns one forest at every depth
  bound above the size of the collection, and that forest has exactly as many nodes as
  the collection has comments. In every forest the builder returns, for any collection,
  the children of every node are exactly the comments of the collection whose
  \<^verbatim>\<open>parentId\<close> is that node's id.
\<close>

theorem buildForest_rooted_collection:
  "(distinct (map c_id cs) \<and> acyclic_parents cs \<and> parents_resolve cs \<longrightarrow>
      (\<exists>f. (\<forall>n. length cs < n \<longrightarrow> buildForest n cs = Some f) \<and>
           length (forest_nodes f) = length cs)) \<and>
   (\<forall>n f. buildForest n cs = Some f \<longrightarrow>
      (\<forall>nd \<in> set (forest_nodes f).
         mset (map payload (children nd)) =
         filter_mset (\<lambda>c. c_parentId c = Ref (c_id (payload nd))) (mset cs)))"
proof (intro conjI impI allI ballI)
  assume h: "distinct (map c_id cs) \<and> acyclic_parents cs \<and> parents_resolve cs"
  then have "all_rooted cs" by (blast intro: resolve_acyclic_rooted)
  with h show "\<exists>f. (\<forall>n. length cs < n \<longrightarrow> buildForest n cs = Some f) \<and>
                  length (forest_nodes f) = length cs"
    by (blast intro: rooted_forest_count)
next
  fix n f nd
  assume "buildForest n cs = Some f" and nd: "nd \<in> set (forest_nodes f)"
  then have f: "CommentTree n cs Undefined = Some f" by (simp add: buildForest_def)
  from CommentTree_children_exact [OF f nd]
  show "mset (map payload (children nd)) =
        filter_mset (\<lambda>c. c_parentId c = Ref (c_id (payload nd))) (mset cs)"
    by (simp add: mset_childComments)
qed

theorem buildForest_rooted_collection_witness:
  "distinct (map c_id tidy_comments) \<and>
   acyclic_parents tidy_comments \<and>
   parents_resolve tidy_comments \<and>
   (\<exists>f. buildForest 4 tidy_comments = Some f \<and> length (forest_nodes f) = 3 \<and>
        (\<forall>nd \<in> set (forest_nodes f).
           mset (map payload (children nd)) =
           filter_mset (\<lambda>c. c_parentId c = Ref (c_id (payload nd))) (mset tidy_comments)))"
proof -
  have d: "distinct (map c_id tidy_comments)"
    by (simp add: tidy_comments_def mk_def)
  have "all_rooted tidy_comments"
    by (simp add: all_rooted_def tidy_comments_def mk_def)
  with d have a: "acyclic_parents tidy_comments" by (rule rooted_acyclic)
  have r: "parents_resolve tidy_comments"
    by (simp add: parents_resolve_def tidy_comments_def mk_def)
  have l: "length tidy_comments < 4" "length tidy_comments = 3"
    by (simp_all add: tidy_comments_def)
  note t = buildForest_rooted_collection [of tidy_comments]
  from d a r have "distinct (map c_id tidy_comments) \<and> acyclic_parents tidy_comments \<and>
                   parents_resolve tidy_comments"
    by (intro conjI)
  from conjunct1 [OF t, rule_format, OF this] obtain f
    where all: "\<forall>n. length tidy_comments < n \<longrightarrow> buildForest n tidy_comments = Some f"
      and count: "length (forest_nodes f) = length tidy_comments"
    by blast
  from all l(1) have run: "buildForest 4 tidy_comments = Some f" by blast
  from conjunct2 [OF t, rule_format, OF run]
  have kids: "\<forall>nd \<in> set (forest_nodes f).
           mset (map payload (children nd)) =
           filter_mset (\<lambda>c. c_parentId c = Ref (c_id (payload nd))) (mset tidy_comments)"
    by blast
  from count l(2) have "length (forest_nodes f) = 3" by simp
  with run kids have "\<exists>f. buildForest 4 tidy_comments = Some f \<and> length (forest_nodes f) = 3 \<and>
        (\<forall>nd \<in> set (forest_nodes f).
           mset (map payload (children nd)) =
           filter_mset (\<lambda>c. c_parentId c = Ref (c_id (payload nd))) (mset tidy_comments))"
    by (intro exI conjI)
  with d a r show ?thesis by (intro conjI)
qed

text \<open>
  The exclusion of cycles carries weight: two comments that are each other's parent
  resolve, yet neither is reachable from the root call, and the forest is empty. No
  operation of the store produces such a collection, since a reply is created after its
  parent and \<^verbatim>\<open>parentId\<close> is never rewritten.
\<close>

lemma buildForest_cycle_empty:
  "parents_resolve cycle_comments \<and>
   buildForest 3 cycle_comments = Some [] \<and>
   length (forest_nodes []) \<noteq> length cycle_comments"
proof -
  have "parents_resolve cycle_comments"
    by (simp add: parents_resolve_def cycle_comments_def mk_def)
  moreover have "buildForest 3 cycle_comments = Some []"
    by code_simp
  moreover have "length (forest_nodes []) \<noteq> length cycle_comments"
    by (simp add: cycle_comments_def)
  ultimately show ?thesis by blast
qed

text \<open>
  So do unique ids: a reply to an id that two comments carry is listed
  under both, so the forest has more nodes than the collection has comments.
\<close>

lemma buildForest_namesakes:
  "parents_resolve namesake_comments \<and>
   buildForest 3 namesake_comments =
     Some [Node (mk ''a'' Null 1) [Node (mk ''b'' (Ref ''a'') 3) []],
           Node (mk ''a'' Null 2) [Node (mk ''b'' (Ref ''a'') 3) []]]"
proof -
  have "parents_resolve namesake_comments"
    by (simp add: parents_resolve_def namesake_comments_def mk_def)
  moreover have "buildForest 3 namesake_comments =
     Some [Node (mk ''a'' Null 1) [Node (mk ''b'' (Ref ''a'') 3) []],
           Node (mk ''a'' Null 2) [Node (mk ''b'' (Ref ''a'') 3) []]]"
    by code_simp
  ultimately show ?thesis by blast
qed

text \<open>
  Distinct ids cannot be dropped: when a reply carries the id of its own parent, the
  component renders that reply inside itself without end, and no depth bound suffices.
\<close>

lemma self_reply_children:
  "childComments self_reply_comments Null = [mk ''a'' Null 1]"
  "childComments self_reply_comments (Ref ''a'') = [mk ''a'' (Ref ''a'') 2]"
  by (simp_all add: childComments_def sort_cmp_def self_reply_comments_def mk_def)

lemma self_reply_inner: "CommentTree n self_reply_comments (Ref ''a'') = None"
proof (induction n)
  case 0
  show ?case by simp
next
  case (Suc n)
  have "c_id (mk ''a'' (Ref ''a'') 2) = ''a''" by (simp add: mk_def)
  with Suc show ?case by (simp add: CommentTree.simps(2) self_reply_children)
qed

lemma buildForest_self_reply: "buildForest n self_reply_comments = None"
proof (cases n)
  case 0
  then show ?thesis by (simp add: buildForest_def)
next
  case (Suc m)
  have "c_id (mk ''a'' Null 1) = ''a''" by (simp add: mk_def)
  with Suc self_reply_inner [of m] show ?thesis
    by (simp add: buildForest_def CommentTree.simps(2) self_reply_children)
qed

lemma childComments_remove:
  "c_parentId c \<noteq> q \<Longrightarrow> childComments (filter (\<lambda>x. x \<noteq> c) cs) q = childComments cs q"
proof -
  assume "c_parentId c \<noteq> q"
  then have "filter (\<lambda>x. c_parentId x = q) (filter (\<lambda>x. x \<noteq> c) cs) =
             filter (\<lambda>x. c_parentId x = q) cs"
    by (auto simp: filter_filter intro: filter_cong)
  then show ?thesis by (simp add: childComments_def)
qed

lemma CommentTree_remove_orphan:
  "orphan cs c \<Longrightarrow> (\<And>i. p = Ref i \<Longrightarrow> i \<in> c_id ` set cs) \<Longrightarrow>
   CommentTree n (filter (\<lambda>x. x \<noteq> c) cs) p = CommentTree n cs p"
proof (induction n arbitrary: p)
  case 0
  then show ?case by simp
next
  case (Suc n)
  from Suc.prems have "c_parentId c \<noteq> default_null p"
    by (cases p) (auto simp: orphan_def)
  then have kids: "childComments (filter (\<lambda>x. x \<noteq> c) cs) (default_null p) =
                   childComments cs (default_null p)"
    by (rule childComments_remove)
  have "CommentTree n (filter (\<lambda>x. x \<noteq> c) cs) (Ref (c_id x)) = CommentTree n cs (Ref (c_id x))"
    if "x \<in> set (childComments cs (default_null p))" for x
    using that Suc.prems(1) by (intro Suc.IH) (auto simp: set_childComments)
  then show ?case
    by (simp add: CommentTree.simps(2) kids cong: map_cong)
qed

text \<open>
  C5. A comment whose \<^verbatim>\<open>parentId\<close> is not \<^verbatim>\<open>null\<close> and is the id of no comment of the
  collection occurs nowhere in a forest the builder returns. The builder has no failing
  branch, and the comment has no influence on the run at all: at every depth bound the
  builder gives the same outcome for the collection without that comment.
\<close>

theorem orphan_excluded:
  assumes "orphan cs c"
  shows "(\<forall>n f. buildForest n cs = Some f \<longrightarrow> c \<notin> set (flatten f)) \<and>
         (\<forall>n. buildForest n (filter (\<lambda>x. x \<noteq> c) cs) = buildForest n cs)"
proof (intro conjI allI impI)
  fix n f assume "buildForest n cs = Some f"
  then have f: "CommentTree n cs (top_ref []) = Some f" by (simp add: buildForest_Some_Null)
  show "c \<notin> set (flatten f)"
  proof
    assume "c \<in> set (flatten f)"
    from flatten_chain [OF _ f this] obtain ch where ch: "chain cs (c # ch)" by auto
    show False
    proof (cases ch)
      case Nil
      with ch assms show False by (simp add: orphan_def)
    next
      case (Cons p r)
      with ch have "p \<in> set cs" "c_parentId c = Ref (c_id p)" by simp_all
      with assms show False by (auto simp: orphan_def)
    qed
  qed
next
  fix n
  show "buildForest n (filter (\<lambda>x. x \<noteq> c) cs) = buildForest n cs"
    unfolding buildForest_def using assms by (rule CommentTree_remove_orphan) simp
qed

theorem orphan_excluded_witness:
  "orphan example_comments (mk ''d'' (Ref ''zzz'') 300) \<and>
   mk ''d'' (Ref ''zzz'') 300 \<in> set example_comments \<and>
   buildForest 3 example_comments =
     Some [Node (mk ''c'' Null 50) [],
           Node (mk ''a'' Null 100) [Node (mk ''b'' (Ref ''a'') 200) []]] \<and>
   mk ''d'' (Ref ''zzz'') 300 \<notin>
     set (flatten [Node (mk ''c'' Null 50) [],
                   Node (mk ''a'' Null 100) [Node (mk ''b'' (Ref ''a'') 200) []]]) \<and>
   buildForest 3 (filter (\<lambda>x. x \<noteq> mk ''d'' (Ref ''zzz'') 300) example_comments) =
     buildForest 3 example_comments"
proof -
  have o: "orphan example_comments (mk ''d'' (Ref ''zzz'') 300)"
    by (simp add: orphan_def example_comments_def mk_def)
  have m: "mk ''d'' (Ref ''zzz'') 300 \<in> set example_comments"
    by (simp add: example_comments_def)
  have r: "buildForest 3 example_comments =
     Some [Node (mk ''c'' Null 50) [],
           Node (mk ''a'' Null 100) [Node (mk ''b'' (Ref ''a'') 200) []]]"
    by code_simp
  have a: "mk ''d'' (Ref ''zzz'') 300 \<notin>
     set (flatten [Node (mk ''c'' Null 50) [],
                   Node (mk ''a'' Null 100) [Node (mk ''b'' (Ref ''a'') 200) []]])"
    using conjunct1 [OF orphan_excluded [OF o], rule_format, OF r] .
  have b: "buildForest 3 (filter (\<lambda>x. x \<noteq> mk ''d'' (Ref ''zzz'') 300) example_comments) =
     buildForest 3 example_comments"
    using conjunct2 [OF orphan_excluded [OF o], rule_format, of 3] .
  from o m r a b show ?thesis by (intro conjI)
qed

section \<open>Vote toggle and comment creation: further theorems\<close>

lemma filter_absent: "u \<notin> set xs \<Longrightarrow> filter (\<lambda>i. i \<noteq> u) xs = xs"
  by (induction xs) auto

text \<open>
  C2 (as amended). When \<open>userId\<close> is not in the array of the opposite vote type
  (\<^verbatim>\<open>dislikes\<close> for a like, \<^verbatim>\<open>likes\<close> for a dislike), two successive toggles with the same
  \<open>userId\<close> and \<open>voteType\<close> return a comment whose \<^verbatim>\<open>likes\<close> and \<^verbatim>\<open>dislikes\<close> hold the
  same user ids as before and whose other fields are unchanged; when \<open>userId\<close> is in
  neither array the result is the original comment itself.
\<close>

theorem toggleVote_twice:
  assumes "userId \<notin> set (opposite c voteType)"
  shows "set (c_likes (toggleVote (toggleVote c userId voteType) userId voteType)) = set (c_likes c) \<and>
         set (c_dislikes (toggleVote (toggleVote c userId voteType) userId voteType)) =
           set (c_dislikes c) \<and>
         same_except_votes c (toggleVote (toggleVote c userId voteType) userId voteType) \<and>
         (userId \<notin> set (c_likes c) \<and> userId \<notin> set (c_dislikes c) \<longrightarrow>
            toggleVote (toggleVote c userId voteType) userId voteType = c)"
proof (cases voteType)
  case Like
  with assms have "userId \<notin> set (c_dislikes c)" by simp
  with Like show ?thesis
    by (auto simp: toggleVote_def Let_def same_except_votes_def filter_absent)
next
  case Dislike
  with assms have "userId \<notin> set (c_likes c)" by simp
  with Dislike show ?thesis
    by (auto simp: toggleVote_def Let_def same_except_votes_def filter_absent)
qed

theorem toggleVote_twice_witness:
  "''u2'' \<notin> set (opposite (voted [''u1''] []) Like) \<and>
   ''u2'' \<notin> set (c_likes (voted [''u1''] [])) \<and> ''u2'' \<notin> set (c_dislikes (voted [''u1''] [])) \<and>
   toggleVote (voted [''u1''] []) ''u2'' Like = voted [''u1'', ''u2''] [] \<and>
   toggleVote (toggleVote (voted [''u1''] []) ''u2'' Like) ''u2'' Like = voted [''u1''] []"
proof -
  have h: "''u2'' \<notin> set (opposite (voted [''u1''] []) Like)" by (simp add: voted_def)
  have n: "''u2'' \<notin> set (c_likes (voted [''u1''] [])) \<and> ''u2'' \<notin> set (c_dislikes (voted [''u1''] []))"
    by (simp add: voted_def)
  have s: "toggleVote (voted [''u1''] []) ''u2'' Like = voted [''u1'', ''u2''] []"
    by (simp add: toggleVote_def voted_def)
  from toggleVote_twice [OF h] n
  have "toggleVote (toggleVote (voted [''u1''] []) ''u2'' Like) ''u2'' Like = voted [''u1''] []"
    by blast
  with h n s show ?thesis by (intro conjI) simp_all
qed

text \<open>
  The claim as first stated fails for a user who holds the opposite vote: the first
  like removes the dislike, the second like removes the like, and the dislike is gone.
\<close>

theorem toggleVote_twice_counterexample:
  "toggleVote (toggleVote (voted [] [''u1'']) ''u1'' Like) ''u1'' Like = voted [] [] \<and>
   voted [] [] \<noteq> voted [] [''u1''] \<and>
   vote_inv (voted [] [''u1''])"
  by (simp add: toggleVote_def voted_def vote_inv_def)

text \<open>
  Equality of the arrays themselves is not restored in general: un-like followed by like
  moves the user to the end of \<^verbatim>\<open>likes\<close>.
\<close>

lemma toggleVote_twice_reorders:
  "toggleVote (toggleVote (voted [''u1'', ''u2''] []) ''u1'' Like) ''u1'' Like =
     voted [''u2'', ''u1''] []"
  by (simp add: toggleVote_def voted_def)

text \<open>
  Every comment the store holds satisfies the invariants of the vote arrays: a new
  comment has empty arrays, and a toggle keeps the invariants (\<open>toggleVote_inv\<close>).
\<close>

lemma newComment_vote_inv: "vote_inv (newComment commentData generatedId now)"
  by (simp add: vote_inv_def newComment_def)

lemma toggleVote_like_switch:
  "userId \<in> set (c_dislikes c) \<Longrightarrow> userId \<notin> set (c_likes c) \<Longrightarrow>
   userId \<in> set (c_likes (toggleVote c userId Like)) \<and>
   userId \<notin> set (c_dislikes (toggleVote c userId Like))"
  by (simp add: toggleVote_def)

text \<open>
  C6. For every comment (of the data model: no user id in both vote arrays) in which
  \<open>userId\<close> is in \<^verbatim>\<open>dislikes\<close>, a like by \<open>userId\<close> yields a comment in which \<open>userId\<close>
  is in \<^verbatim>\<open>likes\<close> and not in \<^verbatim>\<open>dislikes\<close>.
\<close>

theorem toggleVote_switch:
  assumes "vote_inv c" and "userId \<in> set (c_dislikes c)"
  shows "userId \<in> set (c_likes (toggleVote c userId Like)) \<and>
         userId \<notin> set (c_dislikes (toggleVote c userId Like))"
proof -
  from assms have "userId \<notin> set (c_likes c)" by (auto simp: vote_inv_def)
  with assms(2) show ?thesis by (rule toggleVote_like_switch)
qed

theorem toggleVote_switch_witness:
  "vote_inv (voted [''u2''] [''u1'']) \<and>
   ''u1'' \<in> set (c_dislikes (voted [''u2''] [''u1''])) \<and>
   toggleVote (voted [''u2''] [''u1'']) ''u1'' Like = voted [''u2'', ''u1''] [] \<and>
   ''u1'' \<in> set (c_likes (toggleVote (voted [''u2''] [''u1'']) ''u1'' Like)) \<and>
   ''u1'' \<notin> set (c_dislikes (toggleVote (voted [''u2''] [''u1'']) ''u1'' Like))"
proof -
  have i: "vote_inv (voted [''u2''] [''u1''])" by (simp add: vote_inv_def voted_def)
  have a: "''u1'' \<in> set (c_dislikes (voted [''u2''] [''u1'']))" by (simp add: voted_def)
  have s: "toggleVote (voted [''u2''] [''u1'']) ''u1'' Like = voted [''u2'', ''u1''] []"
    by (simp add: toggleVote_def voted_def)
  from toggleVote_switch [OF i a] i a s show ?thesis by (intro conjI) simp_all
qed

text \<open>
  The invariant carries weight: were \<open>userId\<close> in both arrays, the membership test on
  \<^verbatim>\<open>likes\<close> would select the un-like branch, which leaves \<^verbatim>\<open>dislikes\<close> as it is. Such a
  comment violates the invariant.
\<close>

lemma toggleVote_like_in_both:
  "\<not> vote_inv (voted [''u1''] [''u1'']) \<and>
   toggleVote (voted [''u1''] [''u1'']) ''u1'' Like = voted [] [''u1'']"
  by (simp add: toggleVote_def voted_def vote_inv_def)

lemma toggleVoteEpisodes_no_match:
  assumes "\<forall>ep \<in> set eps. e_id ep = episodeId \<longrightarrow> (\<forall>c \<in> set (e_comments ep). c_id c \<noteq> commentId)"
  shows "toggleVoteEpisodes eps episodeId commentId userId voteType = eps"
proof -
  have "(if e_id ep = episodeId
         then ep\<lparr>e_comments := map (\<lambda>comment. if c_id comment = commentId
                                      then toggleVote comment userId voteType else comment)
                                 (e_comments ep)\<rparr>
         else ep) = ep" if "ep \<in> set eps" for ep
  proof (cases "e_id ep = episodeId")
    case True
    with assms that have "\<forall>c \<in> set (e_comments ep). c_id c \<noteq> commentId" by blast
    then have "map (\<lambda>comment. if c_id comment = commentId
                       then toggleVote comment userId voteType else comment) (e_comments ep) =
               e_comments ep"
      by (intro map_idI) simp
    then show ?thesis by simp
  next
    case False
    then show ?thesis by simp
  qed
  then show ?thesis unfolding toggleVoteEpisodes_def by (intro map_idI)
qed

text \<open>
  C9. When the story exists and either no episode of it has the given \<^verbatim>\<open>episodeId\<close> or no
  comment of the targeted episode has the given \<^verbatim>\<open>commentId\<close> (and also when the story
  does not exist), the store after the request equals the store before it: the comments
  of every episode are unchanged. The operation has no failing branch, so nothing is
  signalled.
\<close>

theorem toggleCommentVote_no_match:
  assumes "\<forall>story. db storyId = Some story \<longrightarrow>
             (\<forall>ep \<in> set (s_episodes story). e_id ep \<noteq> episodeId) \<or>
             (\<forall>ep \<in> set (s_episodes story).
                e_id ep = episodeId \<longrightarrow> (\<forall>c \<in> set (e_comments ep). c_id c \<noteq> commentId))"
  shows "toggleCommentVote db storyId episodeId commentId userId voteType = db"
proof (cases "db storyId")
  case None
  then show ?thesis by (simp add: toggleCommentVote_def)
next
  case (Some story)
  with assms have "\<forall>ep \<in> set (s_episodes story).
                e_id ep = episodeId \<longrightarrow> (\<forall>c \<in> set (e_comments ep). c_id c \<noteq> commentId)"
    by blast
  then have "toggleVoteEpisodes (s_episodes story) episodeId commentId userId voteType =
             s_episodes story"
    by (rule toggleVoteEpisodes_no_match)
  with Some show ?thesis by (simp add: toggleCommentVote_def map_upd_triv)
qed


theorem toggleCommentVote_no_match_witness:
  "toggleCommentVote example_db ''s1'' ''e1'' ''zz'' ''u1'' Like = example_db \<and>
   toggleCommentVote example_db ''s1'' ''e9'' ''x'' ''u1'' Dislike = example_db"
proof -
  have a: "\<forall>story. example_db ''s1'' = Some story \<longrightarrow>
             (\<forall>ep \<in> set (s_episodes story). e_id ep \<noteq> ''e1'') \<or>
             (\<forall>ep \<in> set (s_episodes story).
                e_id ep = ''e1'' \<longrightarrow> (\<forall>c \<in> set (e_comments ep). c_id c \<noteq> ''zz''))"
    by (simp add: example_db_def example_story_def example_episode_def voted_def mk_def)
  have b: "\<forall>story. example_db ''s1'' = Some story \<longrightarrow>
             (\<forall>ep \<in> set (s_episodes story). e_id ep \<noteq> ''e9'') \<or>
             (\<forall>ep \<in> set (s_episodes story).
                e_id ep = ''e9'' \<longrightarrow> (\<forall>c \<in> set (e_comments ep). c_id c \<noteq> ''x''))"
    by (simp add: example_db_def example_story_def example_episode_def voted_def mk_def)
  from toggleCommentVote_no_match
         [where db = example_db and storyId = "''s1''" and episodeId = "''e1''"
            and commentId = "''zz''" and userId = "''u1''" and voteType = Like, OF a]
       toggleCommentVote_no_match
         [where db = example_db and storyId = "''s1''" and episodeId = "''e9''"
            and commentId = "''x''" and userId = "''u1''" and voteType = Dislike, OF b]
  show ?thesis by (intro conjI)
qed

lemma toggleVote_same_except_votes: "same_except_votes c (toggleVote c u v)"
  by (simp add: same_except_votes_def toggleVote_def Let_def)

lemma toggleVote_unlike: "u \<in> set (c_likes c) \<Longrightarrow> c_dislikes (toggleVote c u Like) = c_dislikes c"
  by (simp add: toggleVote_def)

lemma same_except_votes_refl: "same_except_votes c c"
  by (simp add: same_except_votes_def)

text \<open>
  C7. A vote request changes nothing but the \<^verbatim>\<open>episodes\<close> field of the addressed story,
  keeps every episode apart from its comments, and keeps every comment apart from its two
  vote arrays. A comment whose id differs from \<^verbatim>\<open>commentId\<close>, or whose episode is not the
  addressed one, is unchanged altogether, and in the un-like branch (a like by a user
  already in \<^verbatim>\<open>likes\<close>) \<^verbatim>\<open>dislikes\<close> is unchanged as well.
\<close>

theorem toggleCommentVote_frame:
  "(\<forall>k. k \<noteq> storyId \<longrightarrow>
        toggleCommentVote db storyId episodeId commentId userId voteType k = db k) \<and>
   (db storyId = None \<longrightarrow>
        toggleCommentVote db storyId episodeId commentId userId voteType storyId = None) \<and>
   (\<forall>story. db storyId = Some story \<longrightarrow>
      (\<exists>eps'. toggleCommentVote db storyId episodeId commentId userId voteType storyId =
                 Some (story\<lparr>s_episodes := eps'\<rparr>) \<and>
         list_all2
           (\<lambda>ep ep'. \<exists>cs'. ep' = ep\<lparr>e_comments := cs'\<rparr> \<and>
              list_all2
                (\<lambda>c c'. same_except_votes c c' \<and>
                   (e_id ep \<noteq> episodeId \<or> c_id c \<noteq> commentId \<longrightarrow> c' = c) \<and>
                   (voteType = Like \<and> userId \<in> set (c_likes c) \<longrightarrow>
                      c_dislikes c' = c_dislikes c))
                (e_comments ep) cs')
           (s_episodes story) eps'))"
proof (intro conjI allI impI)
  fix k assume "k \<noteq> storyId"
  then show "toggleCommentVote db storyId episodeId commentId userId voteType k = db k"
    by (simp add: toggleCommentVote_def split: option.splits)
next
  assume "db storyId = None"
  then show "toggleCommentVote db storyId episodeId commentId userId voteType storyId = None"
    by (simp add: toggleCommentVote_def)
next
  fix story assume story: "db storyId = Some story"
  let ?eps' = "toggleVoteEpisodes (s_episodes story) episodeId commentId userId voteType"
  let ?R = "\<lambda>ep c c'. same_except_votes c c' \<and>
                   (e_id ep \<noteq> episodeId \<or> c_id c \<noteq> commentId \<longrightarrow> c' = c) \<and>
                   (voteType = Like \<and> userId \<in> set (c_likes c) \<longrightarrow>
                      c_dislikes c' = c_dislikes c)"
  have com: "?R ep c (if c_id c = commentId then toggleVote c userId voteType else c)"
    if "e_id ep = episodeId" for ep c
    using that
    by (simp add: toggleVote_same_except_votes same_except_votes_refl toggleVote_unlike)
  have keep: "?R ep c c" for ep c
    by (simp add: same_except_votes_refl)
  have ep: "\<exists>cs'. (if e_id ep = episodeId
               then ep\<lparr>e_comments :=
                        map (\<lambda>comment. if c_id comment = commentId
                                       then toggleVote comment userId voteType else comment)
                            (e_comments ep)\<rparr>
               else ep) = ep\<lparr>e_comments := cs'\<rparr> \<and>
             list_all2 (?R ep) (e_comments ep) cs'" for ep
  proof (cases "e_id ep = episodeId")
    case True
    have "list_all2 (?R ep) (e_comments ep)
            (map (\<lambda>comment. if c_id comment = commentId
                            then toggleVote comment userId voteType else comment)
                 (e_comments ep))"
      unfolding list_all2_map2 using com [OF True] by (intro list_all2_refl)
    with True show ?thesis by auto
  next
    case False
    have "list_all2 (?R ep) (e_comments ep) (e_comments ep)"
      using keep by (intro list_all2_refl)
    with False show ?thesis by (intro exI [of _ "e_comments ep"]) simp
  qed
  have "list_all2 (\<lambda>ep ep'. \<exists>cs'. ep' = ep\<lparr>e_comments := cs'\<rparr> \<and>
                     list_all2 (?R ep) (e_comments ep) cs')
          (s_episodes story) ?eps'"
    unfolding toggleVoteEpisodes_def list_all2_map2 using ep by (intro list_all2_refl)
  moreover have "toggleCommentVote db storyId episodeId commentId userId voteType storyId =
                 Some (story\<lparr>s_episodes := ?eps'\<rparr>)"
    using story by (simp add: toggleCommentVote_def)
  ultimately show "\<exists>eps'. toggleCommentVote db storyId episodeId commentId userId voteType storyId =
                 Some (story\<lparr>s_episodes := eps'\<rparr>) \<and>
         list_all2
           (\<lambda>ep ep'. \<exists>cs'. ep' = ep\<lparr>e_comments := cs'\<rparr> \<and>
              list_all2 (?R ep) (e_comments ep) cs')
           (s_episodes story) eps'"
    by blast
qed

lemma example_db_s1:
  "example_db ''s1'' =
     Some (example_story
        [example_episode ''e1'' [voted [''u1''] [], mk ''y'' (Ref ''x'') 200],
         example_episode ''e2'' [mk ''x'' Null 300]])"
  by (simp add: example_db_def)

theorem toggleCommentVote_frame_witness:
  "example_db ''s1'' =
     Some (example_story
        [example_episode ''e1'' [voted [''u1''] [], mk ''y'' (Ref ''x'') 200],
         example_episode ''e2'' [mk ''x'' Null 300]]) \<and>
   toggleCommentVote example_db ''s1'' ''e1'' ''x'' ''u1'' Like =
     [''s1'' \<mapsto> example_story
        [example_episode ''e1'' [voted [] [], mk ''y'' (Ref ''x'') 200],
         example_episode ''e2'' [mk ''x'' Null 300]]] \<and>
   toggleCommentVote example_db ''s1'' ''e1'' ''x'' ''u1'' Like ''s2'' = example_db ''s2'' \<and>
   example_db ''s2'' = None \<and>
   toggleCommentVote example_db ''s2'' ''e1'' ''x'' ''u1'' Like ''s2'' = None \<and>
   (\<exists>eps'. toggleCommentVote example_db ''s1'' ''e1'' ''x'' ''u1'' Like ''s1'' =
             Some (example_story
                     [example_episode ''e1'' [voted [''u1''] [], mk ''y'' (Ref ''x'') 200],
                      example_episode ''e2'' [mk ''x'' Null 300]]\<lparr>s_episodes := eps'\<rparr>) \<and>
      list_all2
        (\<lambda>ep ep'. \<exists>cs'. ep' = ep\<lparr>e_comments := cs'\<rparr> \<and>
           list_all2
             (\<lambda>c c'. same_except_votes c c' \<and>
                (e_id ep \<noteq> ''e1'' \<or> c_id c \<noteq> ''x'' \<longrightarrow> c' = c) \<and>
                (Like = Like \<and> ''u1'' \<in> set (c_likes c) \<longrightarrow> c_dislikes c' = c_dislikes c))
             (e_comments ep) cs')
        (s_episodes (example_story
                     [example_episode ''e1'' [voted [''u1''] [], mk ''y'' (Ref ''x'') 200],
                      example_episode ''e2'' [mk ''x'' Null 300]])) eps')"
proof -
  note t1 = toggleCommentVote_frame
         [where db = example_db and storyId = "''s1''" and episodeId = "''e1''"
            and commentId = "''x''" and userId = "''u1''" and voteType = Like]
  note t2 = toggleCommentVote_frame
         [where db = example_db and storyId = "''s2''" and episodeId = "''e1''"
            and commentId = "''x''" and userId = "''u1''" and voteType = Like]
  have n: "example_db ''s2'' = None" by (simp add: example_db_def)
  have ne: "''s2'' \<noteq> ''s1''" by simp
  have ev: "toggleCommentVote example_db ''s1'' ''e1'' ''x'' ''u1'' Like =
     [''s1'' \<mapsto> example_story
        [example_episode ''e1'' [voted [] [], mk ''y'' (Ref ''x'') 200],
         example_episode ''e2'' [mk ''x'' Null 300]]]"
    by (simp add: toggleCommentVote_def toggleVoteEpisodes_def toggleVote_def example_db_def
          example_story_def example_episode_def voted_def mk_def)
  have other:
    "toggleCommentVote example_db ''s1'' ''e1'' ''x'' ''u1'' Like ''s2'' = example_db ''s2''"
    using conjunct1 [OF t1, rule_format, OF ne] .
  have none: "toggleCommentVote example_db ''s2'' ''e1'' ''x'' ''u1'' Like ''s2'' = None"
    using conjunct1 [OF conjunct2 [OF t2], rule_format, OF n] .
  from conjunct2 [OF conjunct2 [OF t1], rule_format, OF example_db_s1]
  have "\<exists>eps'. toggleCommentVote example_db ''s1'' ''e1'' ''x'' ''u1'' Like ''s1'' =
             Some (example_story
                     [example_episode ''e1'' [voted [''u1''] [], mk ''y'' (Ref ''x'') 200],
                      example_episode ''e2'' [mk ''x'' Null 300]]\<lparr>s_episodes := eps'\<rparr>) \<and>
      list_all2
        (\<lambda>ep ep'. \<exists>cs'. ep' = ep\<lparr>e_comments := cs'\<rparr> \<and>
           list_all2
             (\<lambda>c c'. same_except_votes c c' \<and>
                (e_id ep \<noteq> ''e1'' \<or> c_id c \<noteq> ''x'' \<longrightarrow> c' = c) \<and>
                (Like = Like \<and> ''u1'' \<in> set (c_likes c) \<longrightarrow> c_dislikes c' = c_dislikes c))
             (e_comments ep) cs')
        (s_episodes (example_story
                     [example_episode ''e1'' [voted [''u1''] [], mk ''y'' (Ref ''x'') 200],
                      example_episode ''e2'' [mk ''x'' Null 300]])) eps'" .
  with example_db_s1 ev other n none show ?thesis by (intro conjI)
qed

text \<open>
  C8. Given that the generated identifier is fresh (the contract of the store's
  generator), the created comment has an id distinct from the id of every stored comment,
  \<^verbatim>\<open>createdAt\<close> equal to the clock reading, empty \<^verbatim>\<open>likes\<close> and \<^verbatim>\<open>dislikes\<close>, and the
  \<^verbatim>\<open>parentId\<close> the caller supplied; it is appended to the comments of the addressed
  episode whatever that \<^verbatim>\<open>parentId\<close> is.
\<close>

theorem addComment_new:
  assumes "fresh_id db generatedId"
  shows "(\<forall>story \<in> ran db. \<forall>c \<in> set (story_comments story).
            c_id c \<noteq> c_id (newComment commentData generatedId now)) \<and>
         c_createdAt (newComment commentData generatedId now) = now \<and>
         c_likes (newComment commentData generatedId now) = [] \<and>
         c_dislikes (newComment commentData generatedId now) = [] \<and>
         c_parentId (newComment commentData generatedId now) = d_parentId commentData \<and>
         (\<forall>story. db storyId = Some story \<longrightarrow>
            (\<exists>eps'. addComment db storyId episodeId commentData generatedId now storyId =
                       Some (story\<lparr>s_episodes := eps'\<rparr>) \<and>
               list_all2
                 (\<lambda>ep ep'. if e_id ep = episodeId
                            then ep' = ep\<lparr>e_comments := e_comments ep @
                                                        [newComment commentData generatedId now]\<rparr>
                            else ep' = ep)
                 (s_episodes story) eps'))"
proof (intro conjI allI impI)
  show "\<forall>story \<in> ran db. \<forall>c \<in> set (story_comments story).
            c_id c \<noteq> c_id (newComment commentData generatedId now)"
    using assms by (simp add: fresh_id_def newComment_def)
next
  fix story assume story: "db storyId = Some story"
  let ?new = "newComment commentData generatedId now"
  have "list_all2
          (\<lambda>ep ep'. if e_id ep = episodeId
                     then ep' = ep\<lparr>e_comments := e_comments ep @ [?new]\<rparr> else ep' = ep)
          (s_episodes story) (addCommentEpisodes (s_episodes story) episodeId ?new)"
    unfolding addCommentEpisodes_def list_all2_map2 by (intro list_all2_refl) simp
  moreover have "addComment db storyId episodeId commentData generatedId now storyId =
                 Some (story\<lparr>s_episodes := addCommentEpisodes (s_episodes story) episodeId ?new\<rparr>)"
    using story by (simp add: addComment_def Let_def)
  ultimately show "\<exists>eps'. addComment db storyId episodeId commentData generatedId now storyId =
                       Some (story\<lparr>s_episodes := eps'\<rparr>) \<and>
               list_all2
                 (\<lambda>ep ep'. if e_id ep = episodeId
                            then ep' = ep\<lparr>e_comments := e_comments ep @ [?new]\<rparr>
                            else ep' = ep)
                 (s_episodes story) eps'"
    by blast
qed (simp_all add: newComment_def)

theorem addComment_new_witness:
  "fresh_id example_db ''n1'' \<and>
   example_db ''s1'' =
     Some (example_story
        [example_episode ''e1'' [voted [''u1''] [], mk ''y'' (Ref ''x'') 200],
         example_episode ''e2'' [mk ''x'' Null 300]]) \<and>
   c_parentId (newComment reply_data ''n1'' 999) = Ref ''nobody'' \<and>
   c_createdAt (newComment reply_data ''n1'' 999) = 999 \<and>
   addComment example_db ''s1'' ''e1'' reply_data ''n1'' 999 =
     [''s1'' \<mapsto> example_story
        [example_episode ''e1''
           [voted [''u1''] [], mk ''y'' (Ref ''x'') 200, newComment reply_data ''n1'' 999],
         example_episode ''e2'' [mk ''x'' Null 300]]] \<and>
   (\<exists>eps'. addComment example_db ''s1'' ''e1'' reply_data ''n1'' 999 ''s1'' =
             Some (example_story
                [example_episode ''e1'' [voted [''u1''] [], mk ''y'' (Ref ''x'') 200],
                 example_episode ''e2'' [mk ''x'' Null 300]]\<lparr>s_episodes := eps'\<rparr>) \<and>
      list_all2
        (\<lambda>ep ep'. if e_id ep = ''e1''
                   then ep' = ep\<lparr>e_comments := e_comments ep @ [newComment reply_data ''n1'' 999]\<rparr>
                   else ep' = ep)
        (s_episodes (example_story
                [example_episode ''e1'' [voted [''u1''] [], mk ''y'' (Ref ''x'') 200],
                 example_episode ''e2'' [mk ''x'' Null 300]])) eps')"
proof -
  have f: "fresh_id example_db ''n1''"
    by (simp add: fresh_id_def example_db_def story_comments_def example_story_def
          example_episode_def voted_def mk_def)
  note t = addComment_new
         [where db = example_db and generatedId = "''n1''" and commentData = reply_data
            and now = 999 and storyId = "''s1''" and episodeId = "''e1''", OF f]
  have ev: "addComment example_db ''s1'' ''e1'' reply_data ''n1'' 999 =
     [''s1'' \<mapsto> example_story
        [example_episode ''e1''
           [voted [''u1''] [], mk ''y'' (Ref ''x'') 200, newComment reply_data ''n1'' 999],
         example_episode ''e2'' [mk ''x'' Null 300]]]"
    by (simp add: addComment_def addCommentEpisodes_def example_db_def example_story_def
          example_episode_def Let_def)
  note t2 = conjunct2 [OF t]
  note t3 = conjunct2 [OF t2]
  note t4 = conjunct2 [OF t3]
  note t5 = conjunct2 [OF t4]
  have c: "c_createdAt (newComment reply_data ''n1'' 999) = 999"
    using conjunct1 [OF t2] .
  have "c_parentId (newComment reply_data ''n1'' 999) = d_parentId reply_data"
    using conjunct1 [OF t5] .
  then have p: "c_parentId (newComment reply_data ''n1'' 999) = Ref ''nobody''"
    by (simp add: reply_data_def)
  have "\<forall>story. example_db ''s1'' = Some story \<longrightarrow>
            (\<exists>eps'. addComment example_db ''s1'' ''e1'' reply_data ''n1'' 999 ''s1'' =
                       Some (story\<lparr>s_episodes := eps'\<rparr>) \<and>
               list_all2
                 (\<lambda>ep ep'. if e_id ep = ''e1''
                            then ep' = ep\<lparr>e_comments := e_comments ep @
                                                        [newComment reply_data ''n1'' 999]\<rparr>
                            else ep' = ep)
                 (s_episodes story) eps')"
    using conjunct2 [OF t5] .
  from this [rule_format, OF example_db_s1] f example_db_s1 p c ev
  show ?thesis by (intro conjI)
qed

end
